theory Spec2Isabelle
  imports Complex_Main
begin

section \<open>Bytes, the length pattern and the helpers of the record framing\<close>

text \<open>
  The client is Python 2 code: a \<^verbatim>\<open>str\<close> is a byte string, modelled as \<^typ>\<open>string\<close>
  (a list of 8-bit characters), and \<^verbatim>\<open>len\<close> counts bytes.
\<close>

definition newline :: char where
  "newline = CHR 0x0A"

definition is_digit :: "char \<Rightarrow> bool" where
  "is_digit c = (c \<in> set ''0123456789'')"

definition is_space :: "char \<Rightarrow> bool" where
  "is_space c = (c \<in> set [CHR 0x20, CHR 0x09, CHR 0x0A, CHR 0x0B, CHR 0x0C, CHR 0x0D])"

text \<open>
  \<^verbatim>\<open>LENGTH_PATTERN = re.compile(br'\d+\n')\<close> and \<^verbatim>\<open>LENGTH_PATTERN.match(s)\<close>:
  the match is anchored at the head of \<open>s\<close>, takes the longest run of digits (one at
  least) and needs a newline right after it. The result is \<^verbatim>\<open>m.group(0)\<close>, or
  \<open>None\<close> when there is no match.
\<close>

definition LENGTH_PATTERN_match :: "string \<Rightarrow> string option" where
  "LENGTH_PATTERN_match s =
     (case dropWhile is_digit s of
        [] \<Rightarrow> None
      | c # _ \<Rightarrow>
          if takeWhile is_digit s \<noteq> [] \<and> c = newline
          then Some (takeWhile is_digit s @ [newline])
          else None)"

text \<open>\<^verbatim>\<open>str.strip()\<close>: whitespace is removed at both ends.\<close>

definition strip :: "string \<Rightarrow> string" where
  "strip s = rev (dropWhile is_space (rev (dropWhile is_space s)))"

text \<open>
  \<^verbatim>\<open>int(s)\<close> on a string of decimal digits (the only strings the record loop passes,
  see \<open>strip_captured_digits\<close> below): the decimal value, most significant digit first.
\<close>

definition digit_val :: "char \<Rightarrow> nat" where
  "digit_val c = of_char c - 48"

definition int_of_digits :: "string \<Rightarrow> nat" where
  "int_of_digits s = foldl (\<lambda>acc c. 10 * acc + digit_val c) 0 s"

section \<open>Connection\<close>

text \<open>
  The socket of a connection: its file descriptor, the mode set by \<^verbatim>\<open>setblocking\<close>
  and the peer given to \<^verbatim>\<open>connect\<close>. \<^verbatim>\<open>socket.socket()\<close> returns a socket in
  blocking mode.
\<close>

record socket =
  sock_fileno :: nat
  blocking :: bool
  peer :: "(string \<times> int) option"

definition socket_socket :: "nat \<Rightarrow> socket" where
  "socket_socket fd = \<lparr>sock_fileno = fd, blocking = True, peer = None\<rparr>"

definition setblocking :: "bool \<Rightarrow> socket \<Rightarrow> socket" where
  "setblocking flag s = s\<lparr>blocking := flag\<rparr>"

type_synonym errno = nat

definition EAGAIN :: errno where
  "EAGAIN = 11"

definition ECONNREFUSED :: errno where
  "ECONNREFUSED = 111"

definition EPIPE :: errno where
  "EPIPE = 32"

text \<open>
  The fields of \<^verbatim>\<open>Connection\<close>. The parser object belongs to the external
  \<^verbatim>\<open>http_parser\<close> library; what it reports after \<^verbatim>\<open>execute\<close> is an input of
  \<open>read\<close> (\<open>parser_view\<close> below). The callback is the owning \<open>Process\<close>.
\<close>

record connection =
  addr :: "string \<times> int"
  sock :: socket
  stream_id :: "string option"
  request :: string
  response :: string

text \<open>
  What the handler side of a \<open>Process\<close> holds: the fields of \<^verbatim>\<open>Process.__init__\<close>,
  and the sequence of events passed to \<^verbatim>\<open>on_event\<close> so far (the effect of the calls).
\<close>

record 'e process =
  master :: "string option"
  stop :: bool
  wakeup_fds :: "(nat \<times> nat) option"
  new_master :: "string option"
  proc_stream_id :: "string option"
  delivered :: "'e list"

subsection \<open>Connection.write\<close>

datatype send_result = Sent nat | SendError errno

definition Connection_write :: "send_result \<Rightarrow> connection \<Rightarrow> bool \<times> connection" where
  "Connection_write sr c =
     (case sr of
        Sent n \<Rightarrow> (True, c\<lparr>request := drop n (request c)\<rparr>)
      | SendError e \<Rightarrow> if e = EAGAIN then (True, c) else (False, c))"

definition want_write :: "connection \<Rightarrow> bool" where
  "want_write c = (request c \<noteq> [])"

definition fileno :: "connection \<Rightarrow> nat" where
  "fileno c = sock_fileno (sock c)"

subsection \<open>Connection.read\<close>

datatype recv_result = Recv string | RecvError errno

text \<open>
  What the HTTP parser reports once \<^verbatim>\<open>execute(buf, n_recv)\<close> has run: the value
  \<^verbatim>\<open>execute\<close> returned and the answers of \<^verbatim>\<open>is_headers_complete\<close>,
  \<^verbatim>\<open>get_status_code\<close>, \<^verbatim>\<open>is_chunked\<close>, \<^verbatim>\<open>get_headers\<close>, \<^verbatim>\<open>is_partial_body\<close>,
  \<^verbatim>\<open>recv_body\<close> and \<^verbatim>\<open>is_message_complete\<close>.
\<close>

record parser_view =
  n_parsed :: nat
  headers_complete :: bool
  status_code :: int
  chunked :: bool
  headers :: "string \<Rightarrow> string option"
  partial_body :: bool
  recv_body :: string
  message_complete :: bool

text \<open>
  The \<^verbatim>\<open>while True\<close> loop of \<open>read\<close> (lines 112 to 129). \<open>decode\<close> is
  the body of the \<^verbatim>\<open>try\<close> of lines 124 to 126, \<^verbatim>\<open>json.loads(data.decode('utf-8'))\<close>
  and then \<^verbatim>\<open>on_event\<close>: \<open>None\<close> when one of them raises, the event that the handler
  took otherwise. The third argument collects the events that the handler took. The result is \<open>(True, buffer, events)\<close>
  when the loop is left by \<^verbatim>\<open>break\<close>, \<open>(False, buffer, events)\<close> when it is left by
  \<^verbatim>\<open>return False\<close>, and \<open>None\<close> when the loop never ends.
\<close>

partial_function (option) extract_records ::
  "(string \<Rightarrow> 'e option) \<Rightarrow> string \<Rightarrow> 'e list \<Rightarrow> (bool \<times> string \<times> 'e list) option"
where
  "extract_records decode resp evs =
     (case LENGTH_PATTERN_match resp of
        None \<Rightarrow> Some (True, resp, evs)
      | Some captured \<Rightarrow>
          if length resp \<ge> length captured + int_of_digits (strip captured)
          then
            (case decode (take (int_of_digits (strip captured)) (drop (length captured) resp)) of
               None \<Rightarrow>
                 Some (False, drop (length captured + int_of_digits (strip captured)) resp, evs)
             | Some event \<Rightarrow>
                 extract_records decode
                   (drop (length captured + int_of_digits (strip captured)) resp)
                   (evs @ [event]))
          else extract_records decode resp evs)"

declare extract_records.simps [code]

text \<open>
  Lines 96 to 108: on the first read that finds the headers complete, the status and the
  transfer encoding are checked and the stream id is taken from the headers; \<open>None\<close> is
  \<^verbatim>\<open>return False\<close>.
\<close>

definition check_headers ::
  "parser_view \<Rightarrow> connection \<Rightarrow> 'e process \<Rightarrow> (connection \<times> 'e process) option"
where
  "check_headers pv c p =
     (if stream_id c = None \<and> headers_complete pv then
        if status_code pv \<noteq> 200 then None
        else if \<not> chunked pv then None
        else
          (let sid = (case headers pv ''Mesos-Stream-Id'' of None \<Rightarrow> '''' | Some v \<Rightarrow> v)
           in Some (c\<lparr>stream_id := Some sid\<rparr>, p\<lparr>proc_stream_id := Some sid\<rparr>))
      else Some (c, p))"

text \<open>
  \<open>read\<close>: the result is \<open>Some (ok, connection, process)\<close> when the call returns
  \<open>ok\<close>, and \<open>None\<close> when it never returns.
\<close>

definition Connection_read ::
  "(string \<Rightarrow> 'e option) \<Rightarrow> recv_result \<Rightarrow> parser_view \<Rightarrow> connection \<Rightarrow> 'e process
     \<Rightarrow> (bool \<times> connection \<times> 'e process) option"
where
  "Connection_read decode rr pv c p =
     (case rr of
        RecvError e \<Rightarrow> Some (e = EAGAIN, c, p)
      | Recv buf \<Rightarrow>
          if length buf = 0 then Some (False, c, p)
          else if n_parsed pv \<noteq> length buf then Some (False, c, p)
          else
            (case check_headers pv c p of
               None \<Rightarrow> Some (False, c, p)
             | Some (c1, p1) \<Rightarrow>
                 if partial_body pv then
                   (case extract_records decode (response c1 @ recv_body pv) [] of
                      None \<Rightarrow> None
                    | Some (ok, resp', evs) \<Rightarrow>
                        if \<not> ok
                        then Some (False, c1\<lparr>response := resp'\<rparr>,
                                   p1\<lparr>delivered := delivered p1 @ evs\<rparr>)
                        else Some (\<not> message_complete pv, c1\<lparr>response := resp'\<rparr>,
                                   p1\<lparr>delivered := delivered p1 @ evs\<rparr>))
                 else Some (\<not> message_complete pv, c1, p1)))"

subsection \<open>Connection.__init__\<close>

datatype exn = ValueError | SocketError errno | AttributeError | AssertionError

text \<open>\<^verbatim>\<open>s.split(sep, maxsplit)\<close> for a separator of one character.\<close>

fun split_max :: "char \<Rightarrow> nat \<Rightarrow> string \<Rightarrow> string list" where
  "split_max sep 0 s = [s]"
| "split_max sep (Suc n) s =
     (case dropWhile (\<lambda>c. c \<noteq> sep) s of
        [] \<Rightarrow> [s]
      | _ # rest \<Rightarrow> takeWhile (\<lambda>c. c \<noteq> sep) s # split_max sep n rest)"

text \<open>
  \<^verbatim>\<open>int(s)\<close> on any string: surrounding whitespace, an optional sign, then decimal
  digits; \<open>None\<close> is \<^verbatim>\<open>ValueError\<close>.
\<close>

definition py_int :: "string \<Rightarrow> int option" where
  "py_int s =
     (case strip s of
        [] \<Rightarrow> None
      | c # cs \<Rightarrow>
          if c = CHR ''-'' \<or> c = CHR ''+'' then
            (if cs \<noteq> [] \<and> list_all is_digit cs
             then Some (if c = CHR ''-'' then - int (int_of_digits cs) else int (int_of_digits cs))
             else None)
          else if list_all is_digit (c # cs) then Some (int (int_of_digits (c # cs)))
          else None)"

text \<open>
  \<open>Connection_init fd cerr req a\<close> is \<^verbatim>\<open>Connection(a, callback)\<close>, where \<open>fd\<close> is the
  descriptor of the socket that \<^verbatim>\<open>socket.socket()\<close> returns, \<open>cerr\<close> the error that
  \<^verbatim>\<open>connect\<close> raises (if any) and \<open>req\<close> what \<^verbatim>\<open>callback.gen_request()\<close> returns.
\<close>

definition Connection_init :: "nat \<Rightarrow> errno option \<Rightarrow> string \<Rightarrow> string \<Rightarrow> exn + connection" where
  "Connection_init fd cerr req a =
     (case split_max CHR '':'' 2 a of
        [host, port_s] \<Rightarrow>
          (case py_int port_s of
             None \<Rightarrow> Inl ValueError
           | Some port \<Rightarrow>
               (case cerr of
                  Some e \<Rightarrow> Inl (SocketError e)
                | None \<Rightarrow>
                    Inr \<lparr>addr = (host, port),
                         sock = (setblocking True (socket_socket fd))\<lparr>peer := Some (host, port)\<rparr>,
                         stream_id = None,
                         request = req,
                         response = []\<rparr>))
      | _ \<Rightarrow> Inl ValueError)"

section \<open>Process\<close>

definition Process_init :: "string option \<Rightarrow> nat \<times> nat \<Rightarrow> 'e process" where
  "Process_init m pipe =
     \<lparr>master = None, stop = False, wakeup_fds = Some pipe, new_master = m,
      proc_stream_id = None, delivered = []\<rparr>"

text \<open>
  \<open>change_master\<close> and \<open>stop\<close> are called by the controller. \<^verbatim>\<open>_notify\<close> writes one
  byte to the wakeup pipe; the pipe is seen by the loop only through the readiness that
  \<^verbatim>\<open>select\<close> reports, which is an input of each iteration below.
\<close>

definition change_master :: "string option \<Rightarrow> 'e process \<Rightarrow> 'e process" where
  "change_master nm p = p\<lparr>new_master := nm\<rparr>"

definition Process_stop :: "'e process \<Rightarrow> 'e process" where
  "Process_stop p = p\<lparr>stop := True\<rparr>"

subsection \<open>The state of the loop of Process.\_run\<close>

text \<open>
  The effects of the loop on the outside world: \<open>Attempt m t\<close> is the call
  \<^verbatim>\<open>Connection(self._master, self)\<close> of line 230 with \<open>m\<close> the master, made when the
  clock read \<open>t\<close> in the test of line 229; \<open>Close a t\<close> is \<^verbatim>\<open>conn.close()\<close> on the
  connection to \<open>a\<close>, where \<open>t\<close> is the clock reading that the same block uses for the
  new deadline.
\<close>

datatype io_event = Attempt string real | Close "string \<times> int" real

record 'e run_state =
  proc :: "'e process"
  conn :: "connection option"
  next_connect_deadline :: real
  wakeup_fd :: nat
  io_trace :: "io_event list"

definition CONNECT_TIMEOUT :: real where
  "CONNECT_TIMEOUT = 2"

definition CONNECT_RETRY_INTERVAL :: real where
  "CONNECT_RETRY_INTERVAL = 2"

text \<open>
  What one iteration takes from outside: the readings of \<^verbatim>\<open>time.time()\<close> at its seven
  call sites (lines 223, 229, 238, 258, 270, 274, 280), the descriptor and the outcome of
  the socket that a new connection opens, the request of the handler, the descriptors
  that are ready when \<^verbatim>\<open>select\<close> returns, and the outcomes of \<^verbatim>\<open>send\<close>, \<^verbatim>\<open>recv\<close> and
  of the parser.
\<close>

record iter_env =
  t_redirect :: real
  t_connect :: real
  t_select :: real
  t_write_fail :: real
  t_read_fail :: real
  t_timeout_check :: real
  t_timeout_set :: real
  new_fd :: nat
  connect_error :: "errno option"
  gen_request :: string
  ready_read :: "nat list"
  ready_write :: "nat list"
  send_res :: send_result
  recv_res :: recv_result
  parsed :: parser_view

datatype 'e outcome =
    Continue "'e run_state"
  | Stopped "'e run_state"
  | Raised exn "'e run_state"
  | Hangs "'e run_state"

fun state_of :: "'e outcome \<Rightarrow> 'e run_state" where
  "state_of (Continue s) = s"
| "state_of (Stopped s) = s"
| "state_of (Raised e s) = s"
| "state_of (Hangs s) = s"

fun and_then :: "'e outcome \<Rightarrow> ('e run_state \<Rightarrow> 'e outcome) \<Rightarrow> 'e outcome" where
  "and_then (Continue s) f = f s"
| "and_then (Stopped s) f = Stopped s"
| "and_then (Raised e s) f = Raised e s"
| "and_then (Hangs s) f = Hangs s"

text \<open>
  The block that lines 219 to 224, 254 to 259, 266 to 271 and 276 to 281 repeat:
  \<^verbatim>\<open>conn.close(); conn = None; self.stream_id = None;
  next_connect_deadline = time.time() + CONNECT_RETRY_INTERVAL\<close>, with \<open>t\<close> the
  reading of the clock.
\<close>

definition teardown :: "real \<Rightarrow> connection \<Rightarrow> 'e run_state \<Rightarrow> 'e run_state" where
  "teardown t c s =
     s\<lparr>conn := None,
       proc := (proc s)\<lparr>proc_stream_id := None\<rparr>,
       next_connect_deadline := t + CONNECT_RETRY_INTERVAL,
       io_trace := io_trace s @ [Close (addr c) t]\<rparr>"

text \<open>Lines 217 to 226.\<close>

definition redirect_phase :: "iter_env \<Rightarrow> 'e run_state \<Rightarrow> 'e run_state" where
  "redirect_phase env s =
     (if new_master (proc s) \<noteq> master (proc s) then
        (let s1 = (case conn s of None \<Rightarrow> s | Some c \<Rightarrow> teardown (t_redirect env) c s)
         in s1\<lparr>proc := (proc s1)\<lparr>master := new_master (proc s1)\<rparr>\<rparr>)
      else s)"

text \<open>Lines 228 to 230.\<close>

definition connect_phase :: "iter_env \<Rightarrow> 'e run_state \<Rightarrow> 'e outcome" where
  "connect_phase env s =
     (case master (proc s) of
        None \<Rightarrow> Continue s
      | Some m \<Rightarrow>
          if conn s = None \<and> t_connect env > next_connect_deadline s then
            (let s1 = s\<lparr>io_trace := io_trace s @ [Attempt m (t_connect env)]\<rparr> in
             case Connection_init (new_fd env) (connect_error env) (gen_request env) m of
               Inl e \<Rightarrow> Raised e s1
             | Inr c \<Rightarrow> Continue (s1\<lparr>conn := Some c\<rparr>))
          else Continue s)"

text \<open>
  Lines 232 to 248: the sets given to \<^verbatim>\<open>select\<close>, its timeout, and its result, which
  holds each ready descriptor of the two sets once.
\<close>

definition to_write :: "'e run_state \<Rightarrow> nat set" where
  "to_write s = (case conn s of None \<Rightarrow> {} | Some c \<Rightarrow> if want_write c then {fileno c} else {})"

definition to_read :: "'e run_state \<Rightarrow> nat set" where
  "to_read s = (case conn s of None \<Rightarrow> {wakeup_fd s} | Some c \<Rightarrow> {wakeup_fd s, fileno c})"

definition select_timeout :: "real \<Rightarrow> real \<Rightarrow> real option" where
  "select_timeout deadline now =
     (if deadline > now then Some (deadline - now)
      else if deadline + CONNECT_TIMEOUT > now then Some (deadline + CONNECT_TIMEOUT - now)
      else None)"

definition select_ready :: "nat set \<Rightarrow> nat list \<Rightarrow> nat list" where
  "select_ready fds ready = filter (\<lambda>fd. fd \<in> fds) (remdups ready)"

text \<open>Lines 250 to 259.\<close>

fun write_loop :: "iter_env \<Rightarrow> nat list \<Rightarrow> 'e run_state \<Rightarrow> 'e outcome" where
  "write_loop env [] s = Continue s"
| "write_loop env (fd # fds) s =
     (case conn s of
        None \<Rightarrow> Raised AttributeError s
      | Some c \<Rightarrow>
          if fd \<noteq> fileno c then Raised AssertionError s
          else
            (case Connection_write (send_res env) c of
               (True, c') \<Rightarrow>
                 write_loop env fds (s\<lparr>next_connect_deadline := 0, conn := Some c'\<rparr>)
             | (False, c') \<Rightarrow>
                 write_loop env fds
                   (teardown (t_write_fail env) c' (s\<lparr>next_connect_deadline := 0\<rparr>))))"

text \<open>
  Lines 261 to 271. \<^verbatim>\<open>os.read\<close> empties the wakeup pipe. \<open>decode\<close> is the body of
  the \<^verbatim>\<open>try\<close> of lines 124 to 126, \<^verbatim>\<open>json.loads\<close> and then \<^verbatim>\<open>on_event\<close>: it is
  \<open>None\<close> when one of the two raises, and the event that the handler took otherwise.
\<close>

fun read_loop ::
  "(string \<Rightarrow> 'e option) \<Rightarrow> iter_env \<Rightarrow> nat list \<Rightarrow> 'e run_state \<Rightarrow> 'e outcome"
where
  "read_loop decode env [] s = Continue s"
| "read_loop decode env (fd # fds) s =
     (if fd = wakeup_fd s then read_loop decode env fds s
      else
        (case conn s of
           None \<Rightarrow> Raised AttributeError s
         | Some c \<Rightarrow>
             if fd = fileno c then
               (case Connection_read decode (recv_res env) (parsed env) c (proc s) of
                  None \<Rightarrow> Hangs s
                | Some (True, c', p') \<Rightarrow>
                    read_loop decode env fds (s\<lparr>conn := Some c', proc := p'\<rparr>)
                | Some (False, c', p') \<Rightarrow>
                    read_loop decode env fds (teardown (t_read_fail env) c' (s\<lparr>proc := p'\<rparr>)))
             else read_loop decode env fds s))"

text \<open>Lines 273 to 281.\<close>

definition timeout_phase :: "iter_env \<Rightarrow> 'e run_state \<Rightarrow> 'e run_state" where
  "timeout_phase env s =
     (case conn s of
        None \<Rightarrow> s
      | Some c \<Rightarrow>
          if next_connect_deadline s \<noteq> 0 \<and>
             t_timeout_check env > next_connect_deadline s + CONNECT_TIMEOUT
          then teardown (t_timeout_set env) c s
          else s)"

text \<open>One pass through the body of the \<^verbatim>\<open>while True\<close> of line 210.\<close>

definition iteration :: "(string \<Rightarrow> 'e option) \<Rightarrow> iter_env \<Rightarrow> 'e run_state \<Rightarrow> 'e outcome" where
  "iteration decode env s =
     (if stop (proc s) then Stopped s
      else
        and_then (connect_phase env (redirect_phase env s)) (\<lambda>s2.
        and_then (write_loop env (select_ready (to_write s2) (ready_write env)) s2) (\<lambda>s3.
        and_then (read_loop decode env (select_ready (to_read s2) (ready_read env)) s3) (\<lambda>s4.
        Continue (timeout_phase env s4)))))"

subsection \<open>The loop, the controller and Process.\_run\<close>

text \<open>
  Between two passes the controller may call \<open>change_master\<close> and \<open>stop\<close> any number
  of times; the loop reads the fields they set only under the lock at the head of a pass
  (lines 213 to 230).
\<close>

datatype ctl = ChangeMaster "string option" | StopRequest

fun apply_ctl :: "ctl \<Rightarrow> 'e process \<Rightarrow> 'e process" where
  "apply_ctl (ChangeMaster nm) p = change_master nm p"
| "apply_ctl StopRequest p = Process_stop p"

definition controller_calls :: "ctl list \<Rightarrow> 'e run_state \<Rightarrow> 'e run_state" where
  "controller_calls cs s = s\<lparr>proc := fold apply_ctl cs (proc s)\<rparr>"

text \<open>
  The \<^verbatim>\<open>while True\<close> loop, run for as many passes as there are inputs: each input is
  the calls of the controller that came before the pass, and what the pass takes from
  outside. \<open>Continue s\<close> at the end says that the loop is still running in state \<open>s\<close>.
\<close>

fun run_loop ::
  "(string \<Rightarrow> 'e option) \<Rightarrow> (ctl list \<times> iter_env) list \<Rightarrow> 'e run_state \<Rightarrow> 'e outcome"
where
  "run_loop decode [] s = Continue s"
| "run_loop decode ((cs, env) # rest) s =
     and_then (iteration decode env (controller_calls cs s)) (run_loop decode rest)"

text \<open>Lines 202 to 209: the state in which the loop is entered.\<close>

definition start_state :: "'e process \<Rightarrow> nat \<Rightarrow> 'e run_state" where
  "start_state p r =
     \<lparr>proc = p\<lparr>proc_stream_id := None\<rparr>, conn = None, next_connect_deadline = 0,
      wakeup_fd = r, io_trace = []\<rparr>"

text \<open>
  Lines 283 to 294: an exception sets the stop flag (and is handed to the main thread by
  \<^verbatim>\<open>_raise\<close>), and every way out of the loop closes the wakeup pipe.
\<close>

fun run_exit :: "'e outcome \<Rightarrow> 'e outcome" where
  "run_exit (Continue s) = Continue s"
| "run_exit (Hangs s) = Hangs s"
| "run_exit (Stopped s) = Stopped (s\<lparr>proc := (proc s)\<lparr>wakeup_fds := None\<rparr>\<rparr>)"
| "run_exit (Raised e s) = Raised e (s\<lparr>proc := (proc s)\<lparr>stop := True, wakeup_fds := None\<rparr>\<rparr>)"

text \<open>\<open>None\<close>: the pipe is gone (line 203 raises), which a first run never meets.\<close>

definition Process_run ::
  "(string \<Rightarrow> 'e option) \<Rightarrow> (ctl list \<times> iter_env) list \<Rightarrow> 'e process \<Rightarrow> 'e outcome option"
where
  "Process_run decode steps p =
     (case wakeup_fds p of
        None \<Rightarrow> None
      | Some (r, w) \<Rightarrow> Some (run_exit (run_loop decode steps (start_state p r))))"

section \<open>Notions used to state the properties\<close>

text \<open>
  The buffer starts with a length prefix and its newline, and holds fewer payload bytes
  than the prefix announces.
\<close>

definition awaiting_payload :: "string \<Rightarrow> bool" where
  "awaiting_payload resp =
     (case LENGTH_PATTERN_match resp of
        None \<Rightarrow> False
      | Some captured \<Rightarrow> length resp < length captured + int_of_digits (strip captured))"

text \<open>
  A read reaches the checks of lines 97 to 108 when the test of line 96 holds. A live
  connection is read again and again, as long as \<open>read\<close> returns \<open>True\<close>;
  \<open>validations\<close> counts the reads of such a sequence that reach the checks.
\<close>

definition validates :: "recv_result \<Rightarrow> parser_view \<Rightarrow> connection \<Rightarrow> bool" where
  "validates rr pv c =
     (case rr of
        RecvError e \<Rightarrow> False
      | Recv buf \<Rightarrow>
          buf \<noteq> [] \<and> n_parsed pv = length buf \<and> stream_id c = None \<and> headers_complete pv)"

fun validations ::
  "(string \<Rightarrow> 'e option) \<Rightarrow> (recv_result \<times> parser_view) list \<Rightarrow> connection \<Rightarrow> 'e process \<Rightarrow> nat"
where
  "validations decode [] c p = 0"
| "validations decode ((rr, pv) # rest) c p =
     (if validates rr pv c then 1 else 0) +
     (case Connection_read decode rr pv c p of
        Some (True, c', p') \<Rightarrow> validations decode rest c' p'
      | _ \<Rightarrow> 0)"

text \<open>
  Reading a trace of effects from the left with the deadline \<open>d\<close> armed: a \<open>Close\<close> at
  clock \<open>t\<close> arms \<open>t + CONNECT_RETRY_INTERVAL\<close>, and an \<open>Attempt\<close> respects the
  deadline when its clock is past the deadline armed at that point.
\<close>

fun armed_deadline :: "real \<Rightarrow> io_event list \<Rightarrow> real" where
  "armed_deadline d [] = d"
| "armed_deadline d (Close a t # tr) = armed_deadline (t + CONNECT_RETRY_INTERVAL) tr"
| "armed_deadline d (Attempt m t # tr) = armed_deadline d tr"

fun respects_deadlines :: "real \<Rightarrow> io_event list \<Rightarrow> bool" where
  "respects_deadlines d [] = True"
| "respects_deadlines d (Close a t # tr) = respects_deadlines (t + CONNECT_RETRY_INTERVAL) tr"
| "respects_deadlines d (Attempt m t # tr) = (t > d \<and> respects_deadlines d tr)"

text \<open>
  \<open>arms_backoff t s s'\<close>: if the step from \<open>s\<close> to \<open>s'\<close> takes a live connection
  down, then \<open>s'\<close> has no stream id and its deadline is \<open>t\<close> plus the retry interval.
  \<open>backoff_inv\<close>: every attempt of the trace came after the deadline armed before it,
  and a state without connection has no stream id and holds the deadline that its trace
  arms.
\<close>

definition arms_backoff :: "real \<Rightarrow> 'e run_state \<Rightarrow> 'e run_state \<Rightarrow> bool" where
  "arms_backoff t s s' =
     (conn s \<noteq> None \<and> conn s' = None \<longrightarrow>
        proc_stream_id (proc s') = None \<and>
        next_connect_deadline s' = t + CONNECT_RETRY_INTERVAL)"

definition backoff_inv :: "'e run_state \<Rightarrow> bool" where
  "backoff_inv s =
     (respects_deadlines 0 (io_trace s) \<and>
      (conn s = None \<longrightarrow>
         proc_stream_id (proc s) = None \<and>
         next_connect_deadline s = armed_deadline 0 (io_trace s)))"

fun is_Attempt :: "io_event \<Rightarrow> bool" where
  "is_Attempt (Attempt m t) = True"
| "is_Attempt (Close a t) = False"

fun attempt_to :: "string \<Rightarrow> io_event \<Rightarrow> bool" where
  "attempt_to e (Attempt m t) = (m = e)"
| "attempt_to e (Close a t) = False"

text \<open>
  The events of a trace that come before its first \<open>Attempt\<close>: the connection that
  was live where the trace starts is the only one that they can close.
\<close>

definition before_first_attempt :: "io_event list \<Rightarrow> io_event list" where
  "before_first_attempt tr = takeWhile (\<lambda>e. \<not> is_Attempt e) tr"

text \<open>
  \<open>superseded_inv e a n s\<close>, for the events that \<open>s\<close> has added to a trace that had
  \<open>n\<close> events: the endpoint \<open>e\<close> is not the desired one and was never attempted,
  the events before the first attempt are at most one \<open>Close\<close> of the connection to
  \<open>a\<close>, and as long as there is no event the live connection is the one to \<open>a\<close>.
\<close>

definition superseded_inv :: "string \<Rightarrow> string \<times> int \<Rightarrow> nat \<Rightarrow> 'e run_state \<Rightarrow> bool" where
  "superseded_inv e a n s =
     (new_master (proc s) \<noteq> Some e \<and> n \<le> length (io_trace s) \<and>
      (\<forall>ev \<in> set (drop n (io_trace s)). \<not> attempt_to e ev) \<and>
      (before_first_attempt (drop n (io_trace s)) = [] \<or>
       (\<exists>t. before_first_attempt (drop n (io_trace s)) = [Close a t])) \<and>
      ((\<forall>ev \<in> set (drop n (io_trace s)). \<not> is_Attempt ev) \<longrightarrow>
         (case conn s of
            None \<Rightarrow> True
          | Some c \<Rightarrow> drop n (io_trace s) = [] \<and> addr c = a)))"

section \<open>The JSON texts of the examples\<close>

text \<open>
  \<^verbatim>\<open>json.loads\<close> belongs to the standard library. \<open>json_loads\<close> models it on the JSON
  texts made of objects, arrays, strings without escapes, integers and the three
  literals, in ASCII (so that \<^verbatim>\<open>decode('utf-8')\<close> is the identity): on such a text it
  gives the decoded value, and \<open>None\<close> on a text that is cut short or followed by other
  bytes, where \<^verbatim>\<open>json.loads\<close> raises \<^verbatim>\<open>ValueError\<close>. Texts with escapes, fractions,
  exponents or bytes above 127 are outside this model. An object is kept as the list of
  its members in the order of the text.
\<close>

datatype json =
    JNull
  | JBool bool
  | JInt int
  | JString string
  | JArray "json list"
  | JObject "(string \<times> json) list"

definition is_json_ws :: "char \<Rightarrow> bool" where
  "is_json_ws c = (c \<in> set [CHR 0x20, CHR 0x09, CHR 0x0A, CHR 0x0D])"

definition skip_ws :: "string \<Rightarrow> string" where
  "skip_ws s = dropWhile is_json_ws s"

definition dquote :: char where
  "dquote = CHR 0x22"

fun parse_string_body :: "string \<Rightarrow> (string \<times> string) option" where
  "parse_string_body [] = None"
| "parse_string_body (c # cs) =
     (if c = dquote then Some ([], cs)
      else if c = CHR 0x5C \<or> of_char c < (32::nat) \<or> of_char c > (127::nat) then None
      else (case parse_string_body cs of
              None \<Rightarrow> None
            | Some (str, rest) \<Rightarrow> Some (c # str, rest)))"

definition parse_number :: "string \<Rightarrow> (json \<times> string) option" where
  "parse_number s =
     (let neg = (case s of c # _ \<Rightarrow> c = CHR ''-'' | [] \<Rightarrow> False);
          body = (if neg then tl s else s);
          ds = takeWhile is_digit body;
          rest = dropWhile is_digit body
      in if ds = [] \<or> (length ds > 1 \<and> hd ds = CHR ''0'') then None
         else if (case rest of c # _ \<Rightarrow> c \<in> set ''.eE'' | [] \<Rightarrow> False) then None
         else Some (JInt (if neg then - int (int_of_digits ds) else int (int_of_digits ds)), rest))"

fun parse_value :: "nat \<Rightarrow> string \<Rightarrow> (json \<times> string) option"
  and parse_elements :: "nat \<Rightarrow> string \<Rightarrow> (json list \<times> string) option"
  and parse_members :: "nat \<Rightarrow> string \<Rightarrow> ((string \<times> json) list \<times> string) option"
where
  "parse_value 0 s = None"
| "parse_value (Suc n) s =
     (case skip_ws s of
        [] \<Rightarrow> None
      | c # cs \<Rightarrow>
          if c = CHR ''{'' then
            (case skip_ws cs of
               [] \<Rightarrow> None
             | c' # cs' \<Rightarrow>
                 if c' = CHR ''}'' then Some (JObject [], cs')
                 else (case parse_members n (c' # cs') of
                         None \<Rightarrow> None
                       | Some (ms, rest) \<Rightarrow> Some (JObject ms, rest)))
          else if c = CHR ''['' then
            (case skip_ws cs of
               [] \<Rightarrow> None
             | c' # cs' \<Rightarrow>
                 if c' = CHR '']'' then Some (JArray [], cs')
                 else (case parse_elements n (c' # cs') of
                         None \<Rightarrow> None
                       | Some (vs, rest) \<Rightarrow> Some (JArray vs, rest)))
          else if c = dquote then
            (case parse_string_body cs of
               None \<Rightarrow> None
             | Some (str, rest) \<Rightarrow> Some (JString str, rest))
          else if take 4 (c # cs) = ''true'' then Some (JBool True, drop 4 (c # cs))
          else if take 5 (c # cs) = ''false'' then Some (JBool False, drop 5 (c # cs))
          else if take 4 (c # cs) = ''null'' then Some (JNull, drop 4 (c # cs))
          else parse_number (c # cs))"
| "parse_elements 0 s = None"
| "parse_elements (Suc n) s =
     (case parse_value n s of
        None \<Rightarrow> None
      | Some (v, rest) \<Rightarrow>
          (case skip_ws rest of
             [] \<Rightarrow> None
           | c # cs \<Rightarrow>
               if c = CHR '']'' then Some ([v], cs)
               else if c = CHR '','' then
                 (case parse_elements n cs of
                    None \<Rightarrow> None
                  | Some (vs, rest') \<Rightarrow> Some (v # vs, rest'))
               else None))"
| "parse_members 0 s = None"
| "parse_members (Suc n) s =
     (case skip_ws s of
        [] \<Rightarrow> None
      | q # ks \<Rightarrow>
          if q \<noteq> dquote then None
          else
            (case parse_string_body ks of
               None \<Rightarrow> None
             | Some (key, rest) \<Rightarrow>
                 (case skip_ws rest of
                    [] \<Rightarrow> None
                  | c # cs \<Rightarrow>
                      if c \<noteq> CHR '':'' then None
                      else
                        (case parse_value n cs of
                           None \<Rightarrow> None
                         | Some (v, rest') \<Rightarrow>
                             (case skip_ws rest' of
                                [] \<Rightarrow> None
                              | c' # cs' \<Rightarrow>
                                  if c' = CHR ''}'' then Some ([(key, v)], cs')
                                  else if c' = CHR '','' then
                                    (case parse_members n cs' of
                                       None \<Rightarrow> None
                                     | Some (ms, rest'') \<Rightarrow> Some ((key, v) # ms, rest''))
                                  else None)))))"

definition json_loads :: "string \<Rightarrow> json option" where
  "json_loads s =
     (case parse_value (2 * length s + 2) s of
        None \<Rightarrow> None
      | Some (v, rest) \<Rightarrow> if skip_ws rest = [] then Some v else None)"

section \<open>Concrete inputs\<close>

text \<open>
  A process whose handler takes JSON values, a connection to \<open>master1:5050\<close> that has
  sent its request and has not seen its headers yet, and what the parser reports for a
  read of \<open>n\<close> bytes that ends the headers of a chunked 200 response, with the headers
  \<open>hs\<close> and the body bytes \<open>b\<close>.
\<close>

definition example_process :: "json process" where
  "example_process = (Process_init (Some ''master1:5050'') (3, 4))\<lparr>master := Some ''master1:5050''\<rparr>"

definition example_connection :: connection where
  "example_connection =
     \<lparr>addr = (''master1'', 5050),
      sock = \<lparr>sock_fileno = 5, blocking = True, peer = Some (''master1'', 5050)\<rparr>,
      stream_id = None, request = [], response = []\<rparr>"

definition chunk_view :: "nat \<Rightarrow> (string \<Rightarrow> string option) \<Rightarrow> string \<Rightarrow> parser_view" where
  "chunk_view n hs b =
     \<lparr>n_parsed = n, headers_complete = True, status_code = 200, chunked = True,
      headers = hs, partial_body = True, recv_body = b, message_complete = False\<rparr>"

definition established_connection :: connection where
  "established_connection = example_connection\<lparr>stream_id := Some ''stream-1''\<rparr>"

text \<open>The bytes of one HTTP chunk: the length in hexadecimal, the data, and the line ends.\<close>

definition crlf :: string where
  "crlf = [CHR 0x0D, CHR 0x0A]"

definition http_chunk :: "string \<Rightarrow> string \<Rightarrow> string" where
  "http_chunk hexlen b = hexlen @ crlf @ b @ crlf"

text \<open>
  A pass at clock \<open>t\<close> (all seven readings) in which a new socket would get descriptor
  5 and connect, with the given ready descriptors and outcomes of \<^verbatim>\<open>send\<close> and
  \<^verbatim>\<open>recv\<close>.
\<close>

definition pass_at ::
  "real \<Rightarrow> nat list \<Rightarrow> nat list \<Rightarrow> send_result \<Rightarrow> recv_result \<Rightarrow> parser_view \<Rightarrow> iter_env"
where
  "pass_at t rd wr sr rr pv =
     \<lparr>t_redirect = t, t_connect = t, t_select = t, t_write_fail = t, t_read_fail = t,
      t_timeout_check = t, t_timeout_set = t, new_fd = 5, connect_error = None,
      gen_request = ''POST /api/v1/scheduler'', ready_read = rd, ready_write = wr,
      send_res = sr, recv_res = rr, parsed = pv\<rparr>"

text \<open>
  The state of the loop once a first connection was lost at clock 101 and a second one
  was opened at clock 104, before its socket is reported writable.
\<close>

definition retry_state :: "json run_state" where
  "retry_state =
     \<lparr>proc = example_process,
      conn = Some (example_connection\<lparr>request := ''POST /api/v1/scheduler''\<rparr>),
      next_connect_deadline = 103, wakeup_fd = 3,
      io_trace = [Attempt ''master1:5050'' 100, Close (''master1'', 5050) 101,
                  Attempt ''master1:5050'' 104]\<rparr>"

text \<open>The state of the loop while its first connection is live and has seen its headers.\<close>

definition connected_state :: "json run_state" where
  "connected_state =
     \<lparr>proc = example_process\<lparr>proc_stream_id := Some ''stream-1''\<rparr>,
      conn = Some established_connection,
      next_connect_deadline = 0, wakeup_fd = 3,
      io_trace = [Attempt ''master1:5050'' 100]\<rparr>"

definition idle_view :: parser_view where
  "idle_view =
     \<lparr>n_parsed = 0, headers_complete = False, status_code = 0, chunked = False,
      headers = (\<lambda>k. None), partial_body = False, recv_body = [], message_complete = False\<rparr>"

section \<open>Properties of Connection\<close>

subsection \<open>The record loop\<close>

text \<open>
  What line 118 passes to \<^verbatim>\<open>int\<close> is the run of digits that the pattern matched,
  so the conversion cannot raise.
\<close>

lemma digit_not_space: "is_digit c \<Longrightarrow> \<not> is_space c"
  by (auto simp: is_digit_def is_space_def)

lemma strip_captured_digits:
  assumes "LENGTH_PATTERN_match s = Some captured"
  shows "strip captured = takeWhile is_digit s \<and> strip captured \<noteq> [] \<and>
         list_all is_digit (strip captured)"
proof -
  let ?ds = "takeWhile is_digit s"
  from assms have cap: "captured = ?ds @ [newline]" and ne: "?ds \<noteq> []"
    by (auto simp: LENGTH_PATTERN_match_def split: list.splits if_splits)
  have all: "\<forall>c \<in> set ?ds. is_digit c" by (auto dest: set_takeWhileD)
  from ne obtain d ds where ds: "?ds = d # ds" by (cases ?ds) auto
  with all have "\<not> is_space d" by (simp add: digit_not_space)
  then have a: "dropWhile is_space captured = captured" by (simp add: cap ds)
  have sp: "is_space newline" by (simp add: is_space_def newline_def)
  from ne have "rev ?ds \<noteq> []" by simp
  then obtain l ls where r: "rev ?ds = l # ls" by (cases "rev ?ds") auto
  then have "l \<in> set ?ds" by (metis list.set_intros(1) set_rev)
  with all have "\<not> is_space l" by (simp add: digit_not_space)
  with r sp have "dropWhile is_space (rev captured) = rev ?ds" by (simp add: cap)
  then have "strip captured = ?ds" by (simp add: strip_def a)
  with ne all show ?thesis by (simp add: list_all_iff)
qed

lemma extract_records_Some_not_awaiting:
  assumes "extract_records decode resp evs = Some r"
  shows "\<not> awaiting_payload resp"
  using assms
proof (induction decode resp evs r rule: extract_records.raw_induct [rotated 1, consumes 1])
  case (1 f decode resp evs r)
  show ?case
  proof
    assume aw: "awaiting_payload resp"
    then obtain cap where "LENGTH_PATTERN_match resp = Some cap"
      and "length resp < length cap + int_of_digits (strip cap)"
      by (auto simp: awaiting_payload_def split: option.splits)
    with 1(2) have "f decode resp evs = Some r" by simp
    from 1(1) [OF this] aw show False by simp
  qed
qed

lemma extract_records_awaiting_payload:
  "awaiting_payload resp \<Longrightarrow> extract_records decode resp evs = None"
  using extract_records_Some_not_awaiting [of decode resp evs]
  by (cases "extract_records decode resp evs") auto

lemma Connection_read_hangs:
  assumes "buf \<noteq> []" "n_parsed pv = length buf" "check_headers pv c p = Some (c1, p1)"
    "partial_body pv" "awaiting_payload (response c1 @ recv_body pv)"
  shows "Connection_read decode (Recv buf) pv c p = None"
  using assms by (simp add: Connection_read_def extract_records_awaiting_payload)

text \<open>
  C3 says that the record loop of one read ends for every state of the buffer, also when
  the buffer holds a length prefix and its newline but fewer payload bytes than the prefix
  announces. The loop of lines 112 to 129 has no \<^verbatim>\<open>break\<close> for that case: the test of
  line 119 fails, nothing changes, and the loop starts over. On the buffer
  \<^verbatim>\<open>7\n{"a"\<close> the loop never ends.
\<close>

theorem C3_record_loop_never_ends:
  \<open>awaiting_payload ''7\<newline>{"a"'' \<and> extract_records json_loads ''7\<newline>{"a"'' [] = None\<close>
proof -
  have a: \<open>awaiting_payload ''7\<newline>{"a"''\<close> by code_simp
  from a extract_records_awaiting_payload [OF a, of json_loads "[]"] show ?thesis by simp
qed

text \<open>
  C2 says that a valid record stream gives the same events however its bytes are split
  over successive reads. The stream \<^verbatim>\<open>7\n{"a":1}8\n{"b":22}\<close> read in one piece gives
  its two events; when the first read brings only \<^verbatim>\<open>7\n{"a"\<close>, that read never
  returns, so no event is ever delivered.
\<close>

theorem C2_split_read_never_returns:
  \<open>map_option (\<lambda>(ok, c, p). (ok, delivered p))
      (Connection_read json_loads
         (Recv (http_chunk ''13'' ''7\<newline>{"a":1}8\<newline>{"b":22}''))
         (chunk_view 25 (\<lambda>k. None) ''7\<newline>{"a":1}8\<newline>{"b":22}'')
         established_connection example_process)
    = Some (True, [JObject [(''a'', JInt 1)], JObject [(''b'', JInt 22)]])
   \<and> Connection_read json_loads
         (Recv (http_chunk ''6'' ''7\<newline>{"a"''))
         (chunk_view 11 (\<lambda>k. None) ''7\<newline>{"a"'')
         established_connection example_process
    = None\<close>
proof -
  have whole: \<open>map_option (\<lambda>(ok, c, p). (ok, delivered p))
      (Connection_read json_loads
         (Recv (http_chunk ''13'' ''7\<newline>{"a":1}8\<newline>{"b":22}''))
         (chunk_view 25 (\<lambda>k. None) ''7\<newline>{"a":1}8\<newline>{"b":22}'')
         established_connection example_process)
    = Some (True, [JObject [(''a'', JInt 1)], JObject [(''b'', JInt 22)]])\<close>
    by code_simp
  have aw: \<open>awaiting_payload (response established_connection @ ''7\<newline>{"a"'')\<close>
    by code_simp
  have part: \<open>Connection_read json_loads
         (Recv (http_chunk ''6'' ''7\<newline>{"a"''))
         (chunk_view 11 (\<lambda>k. None) ''7\<newline>{"a"'')
         established_connection example_process = None\<close>
    by (rule Connection_read_hangs
          [where ?c1.0 = established_connection and ?p1.0 = example_process])
       (use aw in \<open>simp_all add: http_chunk_def crlf_def chunk_view_def check_headers_def
          established_connection_def\<close>)
  from whole part show ?thesis by (rule conjI)
qed

text \<open>
  C7 as it is written: the body bytes \<^verbatim>\<open>5\n{"a":1}7\n{"b":22}\<close> give two events.
  The prefixes count the payload bytes, and \<^verbatim>\<open>{"a":1}\<close> has seven of them, not five:
  the loop cuts the payload \<^verbatim>\<open>{"a":\<close>, which is not a JSON text, so the read fails
  and no event is delivered.
\<close>

theorem C7_short_prefix_fails:
  \<open>map_option (\<lambda>(ok, c, p). (ok, delivered p))
      (Connection_read json_loads
         (Recv (http_chunk ''13'' ''5\<newline>{"a":1}7\<newline>{"b":22}''))
         (chunk_view 25 (\<lambda>k. None) ''5\<newline>{"a":1}7\<newline>{"b":22}'')
         established_connection example_process)
    = Some (False, [])\<close>
  by code_simp

lemma two_records:
  \<open>extract_records json_loads ''7\<newline>{"a":1}8\<newline>{"b":22}'' evs =
     Some (True, [], evs @ [JObject [(''a'', JInt 1)], JObject [(''b'', JInt 22)]])\<close>
proof -
  have m1: \<open>LENGTH_PATTERN_match ''7\<newline>{"a":1}8\<newline>{"b":22}'' = Some ''7\<newline>''\<close>
    by code_simp
  have m2: \<open>LENGTH_PATTERN_match ''8\<newline>{"b":22}'' = Some ''8\<newline>''\<close> by code_simp
  have m3: \<open>LENGTH_PATTERN_match [] = None\<close> by code_simp
  have n1: \<open>int_of_digits (strip ''7\<newline>'') = 7\<close> by code_simp
  have n2: \<open>int_of_digits (strip ''8\<newline>'') = 8\<close> by code_simp
  have d1: \<open>json_loads ''{"a":1}'' = Some (JObject [(''a'', JInt 1)])\<close> by code_simp
  have d2: \<open>json_loads ''{"b":22}'' = Some (JObject [(''b'', JInt 22)])\<close> by code_simp
  have e3: "extract_records json_loads [] es = Some (True, [], es)" for es
    by (subst extract_records.simps) (simp add: m3)
  have e2: \<open>extract_records json_loads ''8\<newline>{"b":22}'' es =
      Some (True, [], es @ [JObject [(''b'', JInt 22)]])\<close> for es
    by (subst extract_records.simps) (simp add: m2 n2 d2 e3)
  show ?thesis
    by (subst extract_records.simps) (simp add: m1 n1 d1 e2)
qed

text \<open>
  C7 with the prefixes that count the payloads: when a read brings exactly the body bytes
  \<^verbatim>\<open>7\n{"a":1}8\n{"b":22}\<close> to an empty buffer, the handler gets exactly two events,
  \<^verbatim>\<open>{"a":1}\<close> and then \<^verbatim>\<open>{"b":22}\<close>, and the read returns \<open>True\<close>.
\<close>

theorem C7_two_records_delivered:
  assumes "buf \<noteq> []" and "n_parsed pv = length buf"
    and "check_headers pv c p = Some (c1, p1)" and "response c1 = []"
    and "partial_body pv" and \<open>recv_body pv = ''7\<newline>{"a":1}8\<newline>{"b":22}''\<close>
    and "\<not> message_complete pv"
  shows "Connection_read json_loads (Recv buf) pv c p =
           Some (True, c1\<lparr>response := []\<rparr>,
                 p1\<lparr>delivered := delivered p1 @ [JObject [(''a'', JInt 1)], JObject [(''b'', JInt 22)]]\<rparr>)"
  using assms by (simp add: Connection_read_def two_records)

theorem C7_two_records_delivered_witness:
  \<open>Connection_read json_loads
         (Recv (http_chunk ''13'' ''7\<newline>{"a":1}8\<newline>{"b":22}''))
         (chunk_view 25 (\<lambda>k. None) ''7\<newline>{"a":1}8\<newline>{"b":22}'')
         established_connection example_process
    = Some (True, established_connection,
            example_process\<lparr>delivered := [JObject [(''a'', JInt 1)], JObject [(''b'', JInt 22)]]\<rparr>)\<close>
  using C7_two_records_delivered [of \<open>http_chunk ''13'' ''7\<newline>{"a":1}8\<newline>{"b":22}''\<close>
      \<open>chunk_view 25 (\<lambda>k. None) ''7\<newline>{"a":1}8\<newline>{"b":22}''\<close>
      established_connection example_process established_connection example_process]
  by (simp add: http_chunk_def crlf_def chunk_view_def check_headers_def
        established_connection_def example_connection_def example_process_def Process_init_def)

subsection \<open>The socket mode\<close>

lemma Connection_init_blocking:
  "Connection_init fd cerr req a = Inr c \<Longrightarrow> blocking (sock c)"
  by (auto simp: Connection_init_def setblocking_def socket_socket_def
           split: list.splits option.splits)

text \<open>
  C6 says that the constructor puts the socket in non-blocking mode. Line 55 calls
  \<^verbatim>\<open>setblocking(True)\<close>: the socket of every connection that the constructor returns
  is in blocking mode, here for the connection to \<open>master1:5050\<close>.
\<close>

theorem C6_constructor_leaves_socket_blocking:
  "map_sum id (\<lambda>c. blocking (sock c))
     (Connection_init 5 None ''POST /api/v1/scheduler'' ''master1:5050'') = Inr True"
  by code_simp

subsection \<open>The headers\<close>

text \<open>
  C9: when the headers of a response are complete with status 200 and chunked transfer
  encoding but without the header \<^verbatim>\<open>Mesos-Stream-Id\<close>, the connection is not failed:
  the stream id of the connection and that of the handler become the empty string, and
  the rest of the read is the read of a connection whose stream id is already the empty
  string. It returns \<open>False\<close> only when the parser reports the end of the message or a
  record fails to decode.
\<close>

theorem C9_missing_stream_id_header:
  assumes "buf \<noteq> []" and "n_parsed pv = length buf" and "stream_id c = None"
    and "headers_complete pv" and "status_code pv = 200" and "chunked pv"
    and "headers pv ''Mesos-Stream-Id'' = None"
  shows "check_headers pv c p = Some (c\<lparr>stream_id := Some []\<rparr>, p\<lparr>proc_stream_id := Some []\<rparr>) \<and>
     Connection_read decode (Recv buf) pv c p
       = Connection_read decode (Recv buf) pv
           (c\<lparr>stream_id := Some []\<rparr>) (p\<lparr>proc_stream_id := Some []\<rparr>) \<and>
     (\<not> partial_body pv \<longrightarrow>
        Connection_read decode (Recv buf) pv c p
          = Some (\<not> message_complete pv,
                  c\<lparr>stream_id := Some []\<rparr>, p\<lparr>proc_stream_id := Some []\<rparr>)) \<and>
     (\<forall>ok c' p'. Connection_read decode (Recv buf) pv c p = Some (ok, c', p') \<longrightarrow>
        stream_id c' = Some [] \<and> proc_stream_id p' = Some [] \<and>
        (\<not> ok \<longrightarrow> message_complete pv \<or>
           (partial_body pv \<and>
            (\<exists>r evs. extract_records decode (response c @ recv_body pv) [] = Some (False, r, evs)))))"
proof -
  have ch: "check_headers pv c p = Some (c\<lparr>stream_id := Some []\<rparr>, p\<lparr>proc_stream_id := Some []\<rparr>)"
    using assms by (simp add: check_headers_def)
  have ch': "check_headers pv (c\<lparr>stream_id := Some []\<rparr>) (p\<lparr>proc_stream_id := Some []\<rparr>)
      = Some (c\<lparr>stream_id := Some []\<rparr>, p\<lparr>proc_stream_id := Some []\<rparr>)"
    by (simp add: check_headers_def)
  have same: "Connection_read decode (Recv buf) pv c p
       = Connection_read decode (Recv buf) pv
           (c\<lparr>stream_id := Some []\<rparr>) (p\<lparr>proc_stream_id := Some []\<rparr>)"
    using assms(1,2) by (simp add: Connection_read_def ch ch')
  have nobody: "Connection_read decode (Recv buf) pv c p
          = Some (\<not> message_complete pv,
                  c\<lparr>stream_id := Some []\<rparr>, p\<lparr>proc_stream_id := Some []\<rparr>)"
    if "\<not> partial_body pv"
    using assms(1,2) that by (simp add: Connection_read_def ch)
  have res: "stream_id c' = Some [] \<and> proc_stream_id p' = Some [] \<and>
        (\<not> ok \<longrightarrow> message_complete pv \<or>
           (partial_body pv \<and>
            (\<exists>r evs. extract_records decode (response c @ recv_body pv) [] = Some (False, r, evs))))"
    if "Connection_read decode (Recv buf) pv c p = Some (ok, c', p')" for ok c' p'
    using that assms(1,2)
    by (auto simp: Connection_read_def ch split: if_splits option.splits prod.splits)
  from ch same nobody res show ?thesis by blast
qed

theorem C9_missing_stream_id_header_witness:
  \<open>Connection_read json_loads
         (Recv (http_chunk ''13'' ''7\<newline>{"a":1}8\<newline>{"b":22}''))
         (chunk_view 25 (\<lambda>k. None) ''7\<newline>{"a":1}8\<newline>{"b":22}'')
         example_connection example_process
    = Some (True, example_connection\<lparr>stream_id := Some []\<rparr>,
            example_process\<lparr>proc_stream_id := Some [],
              delivered := [JObject [(''a'', JInt 1)], JObject [(''b'', JInt 22)]]\<rparr>)\<close>
proof -
  have r: \<open>Connection_read json_loads
         (Recv (http_chunk ''13'' ''7\<newline>{"a":1}8\<newline>{"b":22}''))
         (chunk_view 25 (\<lambda>k. None) ''7\<newline>{"a":1}8\<newline>{"b":22}'')
         (example_connection\<lparr>stream_id := Some []\<rparr>) (example_process\<lparr>proc_stream_id := Some []\<rparr>)
    = Some (True, example_connection\<lparr>stream_id := Some []\<rparr>,
            example_process\<lparr>proc_stream_id := Some [],
              delivered := [JObject [(''a'', JInt 1)], JObject [(''b'', JInt 22)]]\<rparr>)\<close>
    by code_simp
  have \<open>Connection_read json_loads
         (Recv (http_chunk ''13'' ''7\<newline>{"a":1}8\<newline>{"b":22}''))
         (chunk_view 25 (\<lambda>k. None) ''7\<newline>{"a":1}8\<newline>{"b":22}'')
         example_connection example_process
      = Connection_read json_loads
         (Recv (http_chunk ''13'' ''7\<newline>{"a":1}8\<newline>{"b":22}''))
         (chunk_view 25 (\<lambda>k. None) ''7\<newline>{"a":1}8\<newline>{"b":22}'')
         (example_connection\<lparr>stream_id := Some []\<rparr>) (example_process\<lparr>proc_stream_id := Some []\<rparr>)\<close>
    using C9_missing_stream_id_header [where buf = \<open>http_chunk ''13'' ''7\<newline>{"a":1}8\<newline>{"b":22}''\<close>
      and pv = \<open>chunk_view 25 (\<lambda>k. None) ''7\<newline>{"a":1}8\<newline>{"b":22}''\<close>
      and c = example_connection and p = example_process and decode = json_loads]
    by (simp add: http_chunk_def crlf_def chunk_view_def example_connection_def)
  with r show ?thesis by simp
qed

lemma Connection_read_stream_id_kept:
  assumes "stream_id c = Some sid" "Connection_read decode rr pv c p = Some (ok, c', p')"
  shows "stream_id c' = Some sid \<and> proc_stream_id p' = proc_stream_id p"
  using assms
  by (auto simp: Connection_read_def check_headers_def
           split: recv_result.splits if_splits option.splits prod.splits)

lemma Connection_read_sets_stream_id:
  assumes "validates rr pv c" "Connection_read decode rr pv c p = Some (True, c', p')"
  shows "stream_id c' \<noteq> None"
  using assms
  by (auto simp: Connection_read_def check_headers_def validates_def Let_def
           split: recv_result.splits if_splits option.splits prod.splits)

lemma validations_established:
  "stream_id c = Some sid \<Longrightarrow> validations decode ins c p = 0"
proof (induction ins arbitrary: c p)
  case Nil
  then show ?case by simp
next
  case (Cons a ins)
  obtain rr pv where a: "a = (rr, pv)" by (cases a)
  have nv: "\<not> validates rr pv c" using Cons.prems by (simp add: validates_def split: recv_result.splits)
  show ?case
  proof (cases "Connection_read decode rr pv c p")
    case None
    then show ?thesis using nv a by simp
  next
    case (Some r)
    obtain ok c' p' where r: "r = (ok, c', p')" by (cases r)
    from Some r have "Connection_read decode rr pv c p = Some (ok, c', p')" by simp
    from Connection_read_stream_id_kept [OF Cons.prems this]
    have "stream_id c' = Some sid" by simp
    from Cons.IH [OF this] show ?thesis using nv a Some r by (cases ok) simp_all
  qed
qed

text \<open>
  C10: the checks of the status and of the transfer encoding, and the capture of the
  stream id, are made by at most one read of a connection. On every read of a connection
  whose stream id is set (also to the empty string) the checks are skipped: what the parser
  says about the headers has no effect on the read, and the stream ids stay as they are.
\<close>

theorem C10_headers_checked_once:
  "validations decode ins c p \<le> 1 \<and>
   (stream_id c = Some sid \<longrightarrow>
      check_headers pv c p = Some (c, p) \<and>
      Connection_read decode rr
        (pv\<lparr>headers_complete := hc, status_code := sc, chunked := ch, headers := hs\<rparr>) c p
        = Connection_read decode rr pv c p \<and>
      (\<forall>ok c' p'. Connection_read decode rr pv c p = Some (ok, c', p') \<longrightarrow>
          stream_id c' = Some sid \<and> proc_stream_id p' = proc_stream_id p))"
proof -
  have once: "validations decode ins c p \<le> 1"
  proof (induction ins arbitrary: c p)
    case Nil
    then show ?case by simp
  next
    case (Cons a ins)
    obtain rr pv where a: "a = (rr, pv)" by (cases a)
    show ?case
    proof (cases "validates rr pv c")
      case False
      then show ?thesis using a Cons.IH
        by (auto split: option.splits prod.splits bool.splits)
    next
      case True
      have "(case Connection_read decode rr pv c p of
               Some (True, c', p') \<Rightarrow> validations decode ins c' p' | _ \<Rightarrow> 0) = 0"
      proof (cases "Connection_read decode rr pv c p")
        case None
        then show ?thesis by simp
      next
        case (Some r)
        obtain ok c' p' where r: "r = (ok, c', p')" by (cases r)
        show ?thesis
        proof (cases ok)
          case False
          then show ?thesis using Some r by simp
        next
          case ok: True
          with Some r have "Connection_read decode rr pv c p = Some (True, c', p')" by simp
          from Connection_read_sets_stream_id [OF True this]
          obtain sid' where "stream_id c' = Some sid'" by auto
          from validations_established [OF this] show ?thesis using Some r ok by simp
        qed
      qed
      then show ?thesis using a True by simp
    qed
  qed
  have skip: "check_headers pv c p = Some (c, p)" if "stream_id c = Some sid"
    using that by (simp add: check_headers_def)
  have indep: "Connection_read decode rr
        (pv\<lparr>headers_complete := hc, status_code := sc, chunked := ch, headers := hs\<rparr>) c p
        = Connection_read decode rr pv c p" if "stream_id c = Some sid"
    using that
    by (auto simp: Connection_read_def check_headers_def
             split: recv_result.splits option.splits prod.splits)
  show ?thesis
    using once skip indep Connection_read_stream_id_kept [of c sid decode rr pv p]
    by blast
qed

theorem C10_headers_checked_once_witness:
  "stream_id (example_connection\<lparr>stream_id := Some []\<rparr>) = Some [] \<and>
   Connection_read json_loads (Recv ''y'')
     ((chunk_view 1 (\<lambda>k. None) [])\<lparr>headers_complete := True, status_code := 404, chunked := False,
        headers := (\<lambda>k. Some ''other'')\<rparr>)
     (example_connection\<lparr>stream_id := Some []\<rparr>) example_process
     = Some (True, example_connection\<lparr>stream_id := Some []\<rparr>, example_process)"
proof -
  have s: "stream_id (example_connection\<lparr>stream_id := Some []\<rparr>) = Some []"
    by simp
  have e: "extract_records json_loads [] [] = Some (True, [], [])"
    by code_simp
  have r: "Connection_read json_loads (Recv ''y'') (chunk_view 1 (\<lambda>k. None) [])
     (example_connection\<lparr>stream_id := Some []\<rparr>) example_process
     = Some (True, example_connection\<lparr>stream_id := Some []\<rparr>, example_process)"
    by (simp add: Connection_read_def check_headers_def chunk_view_def example_connection_def e)
  from s C10_headers_checked_once [where decode = json_loads and ins = "[]"
        and c = "example_connection\<lparr>stream_id := Some []\<rparr>" and p = example_process
        and sid = "[]" and pv = "chunk_view 1 (\<lambda>k. None) []"
        and rr = "Recv ''y''" and hc = True and sc = 404 and ch = False
        and hs = "\<lambda>k. Some ''other''"]
  have "Connection_read json_loads (Recv ''y'')
     ((chunk_view 1 (\<lambda>k. None) [])\<lparr>headers_complete := True, status_code := 404, chunked := False,
        headers := (\<lambda>k. Some ''other'')\<rparr>)
     (example_connection\<lparr>stream_id := Some []\<rparr>) example_process
     = Connection_read json_loads (Recv ''y'') (chunk_view 1 (\<lambda>k. None) [])
     (example_connection\<lparr>stream_id := Some []\<rparr>) example_process"
    by blast
  with r s show ?thesis by simp
qed

section \<open>Properties of the loop\<close>

subsection \<open>Traces and outcomes\<close>

lemma armed_deadline_snoc_Close [simp]:
  "armed_deadline d (tr @ [Close a t]) = t + CONNECT_RETRY_INTERVAL"
  by (induction d tr rule: armed_deadline.induct) simp_all

lemma armed_deadline_snoc_Attempt [simp]:
  "armed_deadline d (tr @ [Attempt m t]) = armed_deadline d tr"
  by (induction d tr rule: armed_deadline.induct) simp_all

lemma respects_deadlines_snoc_Close [simp]:
  "respects_deadlines d (tr @ [Close a t]) = respects_deadlines d tr"
  by (induction d tr rule: respects_deadlines.induct) simp_all

lemma respects_deadlines_snoc_Attempt [simp]:
  "respects_deadlines d (tr @ [Attempt m t]) =
     (respects_deadlines d tr \<and> t > armed_deadline d tr)"
  by (induction d tr rule: respects_deadlines.induct) auto

lemma state_of_and_then:
  assumes "P (state_of out)" and "\<And>s. out = Continue s \<Longrightarrow> P (state_of (f s))"
  shows "P (state_of (and_then out f))"
  using assms by (cases out) simp_all

lemma fold_apply_ctl_stream_id [simp]:
  "proc_stream_id (fold apply_ctl cs p) = proc_stream_id p"
proof (induction cs arbitrary: p)
  case Nil
  then show ?case by simp
next
  case (Cons a cs)
  then show ?case by (cases a) (simp_all add: change_master_def Process_stop_def)
qed

subsection \<open>The retry deadline\<close>

lemma backoff_inv_teardown:
  "backoff_inv s \<Longrightarrow> backoff_inv (teardown t c s)"
  by (simp add: backoff_inv_def teardown_def)

lemma backoff_inv_redirect:
  "backoff_inv s \<Longrightarrow> backoff_inv (redirect_phase env s)"
  by (auto simp: redirect_phase_def backoff_inv_def teardown_def Let_def split: option.splits)

lemma backoff_inv_connect:
  "backoff_inv s \<Longrightarrow> backoff_inv (state_of (connect_phase env s))"
  by (auto simp: connect_phase_def backoff_inv_def Let_def split: option.splits sum.splits)

lemma backoff_inv_write_loop:
  "backoff_inv s \<Longrightarrow> backoff_inv (state_of (write_loop env fds s))"
proof (induction fds arbitrary: s)
  case Nil
  then show ?case by simp
next
  case (Cons fd fds)
  show ?case
  proof (cases "conn s")
    case None
    then show ?thesis using Cons.prems by simp
  next
    case (Some c)
    obtain ok c' where w: "Connection_write (send_res env) c = (ok, c')"
      by (cases "Connection_write (send_res env) c")
    have a: "backoff_inv (s\<lparr>next_connect_deadline := 0, conn := Some c'\<rparr>)"
      using Cons.prems by (simp add: backoff_inv_def)
    have b: "backoff_inv (teardown (t_write_fail env) c' (s\<lparr>next_connect_deadline := 0\<rparr>))"
      using Cons.prems by (simp add: backoff_inv_def teardown_def)
    show ?thesis
      using Some w Cons.prems Cons.IH [OF a] Cons.IH [OF b]
      by (cases ok) simp_all
  qed
qed

lemma backoff_inv_read_loop:
  "backoff_inv s \<Longrightarrow> backoff_inv (state_of (read_loop decode env fds s))"
proof (induction fds arbitrary: s)
  case Nil
  then show ?case by simp
next
  case (Cons fd fds)
  show ?case
  proof (cases "fd = wakeup_fd s")
    case True
    then show ?thesis using Cons by simp
  next
    case nw: False
    show ?thesis
    proof (cases "conn s")
      case None
      then show ?thesis using Cons.prems nw by simp
    next
      case (Some c)
      show ?thesis
      proof (cases "fd = fileno c")
        case False
        then show ?thesis using Cons nw Some by simp
      next
        case True
        show ?thesis
        proof (cases "Connection_read decode (recv_res env) (parsed env) c (proc s)")
          case None
          then show ?thesis using Cons.prems nw Some True by simp
        next
          case (Some r)
          obtain ok c' p' where r: "r = (ok, c', p')" by (cases r)
          have a: "backoff_inv (s\<lparr>conn := Some c', proc := p'\<rparr>)"
            using Cons.prems by (simp add: backoff_inv_def)
          have b: "backoff_inv (teardown (t_read_fail env) c' (s\<lparr>proc := p'\<rparr>))"
            using Cons.prems by (simp add: backoff_inv_def teardown_def)
          show ?thesis
            using \<open>conn s = Some c\<close> Some r nw True Cons.IH [OF a] Cons.IH [OF b]
            by (cases ok) simp_all
        qed
      qed
    qed
  qed
qed

lemma backoff_inv_timeout:
  "backoff_inv s \<Longrightarrow> backoff_inv (timeout_phase env s)"
  by (auto simp: timeout_phase_def backoff_inv_teardown split: option.splits)

lemma backoff_inv_controller:
  "backoff_inv s \<Longrightarrow> backoff_inv (controller_calls cs s)"
  by (simp add: backoff_inv_def controller_calls_def)

lemma backoff_inv_iteration:
  assumes "backoff_inv s"
  shows "backoff_inv (state_of (iteration decode env s))"
proof (cases "stop (proc s)")
  case True
  then show ?thesis using assms by (simp add: iteration_def)
next
  case False
  have "backoff_inv (state_of
      (and_then (connect_phase env (redirect_phase env s)) (\<lambda>s2.
        and_then (write_loop env (select_ready (to_write s2) (ready_write env)) s2) (\<lambda>s3.
        and_then (read_loop decode env (select_ready (to_read s2) (ready_read env)) s3) (\<lambda>s4.
        Continue (timeout_phase env s4))))))"
  proof (rule state_of_and_then)
    show c: "backoff_inv (state_of (connect_phase env (redirect_phase env s)))"
      by (rule backoff_inv_connect) (rule backoff_inv_redirect [OF assms])
    fix s2 assume s2: "connect_phase env (redirect_phase env s) = Continue s2"
    with c have i2: "backoff_inv s2" by simp
    show "backoff_inv (state_of
        (and_then (write_loop env (select_ready (to_write s2) (ready_write env)) s2) (\<lambda>s3.
        and_then (read_loop decode env (select_ready (to_read s2) (ready_read env)) s3) (\<lambda>s4.
        Continue (timeout_phase env s4)))))"
    proof (rule state_of_and_then)
      show w: "backoff_inv (state_of (write_loop env (select_ready (to_write s2) (ready_write env)) s2))"
        by (rule backoff_inv_write_loop [OF i2])
      fix s3 assume "write_loop env (select_ready (to_write s2) (ready_write env)) s2 = Continue s3"
      with w have i3: "backoff_inv s3" by simp
      show "backoff_inv (state_of
        (and_then (read_loop decode env (select_ready (to_read s2) (ready_read env)) s3) (\<lambda>s4.
        Continue (timeout_phase env s4))))"
      proof (rule state_of_and_then)
        show r: "backoff_inv (state_of (read_loop decode env (select_ready (to_read s2) (ready_read env)) s3))"
          by (rule backoff_inv_read_loop [OF i3])
        fix s4 assume "read_loop decode env (select_ready (to_read s2) (ready_read env)) s3 = Continue s4"
        with r have "backoff_inv s4" by simp
        then show "backoff_inv (state_of (Continue (timeout_phase env s4)))"
          by (simp add: backoff_inv_timeout)
      qed
    qed
  qed
  with False show ?thesis by (simp add: iteration_def)
qed

lemma backoff_inv_run_loop:
  "backoff_inv s \<Longrightarrow> backoff_inv (state_of (run_loop decode steps s))"
proof (induction steps arbitrary: s)
  case Nil
  then show ?case by simp
next
  case (Cons a steps)
  obtain cs env where a: "a = (cs, env)" by (cases a)
  have i: "backoff_inv (state_of (iteration decode env (controller_calls cs s)))"
    by (rule backoff_inv_iteration) (rule backoff_inv_controller [OF Cons.prems])
  show ?case
    unfolding a run_loop.simps
    by (rule state_of_and_then [where P = backoff_inv, OF i]) (use i Cons.IH in simp)
qed

lemma backoff_inv_start: "backoff_inv (start_state p r)"
  by (simp add: backoff_inv_def start_state_def)


lemma write_loop_no_conn:
  "conn s = None \<Longrightarrow> state_of (write_loop env fds s) = s"
  by (cases fds) simp_all

lemma read_loop_no_conn:
  "conn s = None \<Longrightarrow> state_of (read_loop decode env fds s) = s"
  by (induction fds) simp_all

lemma arms_backoff_redirect:
  "arms_backoff (t_redirect env) s (redirect_phase env s)"
  by (auto simp: arms_backoff_def redirect_phase_def teardown_def Let_def split: option.splits)

lemma arms_backoff_timeout:
  "arms_backoff (t_timeout_set env) s (timeout_phase env s)"
  by (auto simp: arms_backoff_def timeout_phase_def teardown_def split: option.splits)

lemma write_loop_torn_down:
  assumes "conn s \<noteq> None" "conn (state_of (write_loop env fds s)) = None"
  shows "proc_stream_id (proc (state_of (write_loop env fds s))) = None \<and>
         next_connect_deadline (state_of (write_loop env fds s))
           = t_write_fail env + CONNECT_RETRY_INTERVAL"
  using assms
proof (induction fds arbitrary: s)
  case Nil
  then show ?case by simp
next
  case (Cons fd fds)
  from Cons.prems(1) obtain c where c: "conn s = Some c" by auto
  obtain ok c' where w: "Connection_write (send_res env) c = (ok, c')"
    by (cases "Connection_write (send_res env) c")
  show ?case
  proof (cases "fd = fileno c")
    case False
    then show ?thesis using c Cons.prems by simp
  next
    case True
    show ?thesis
    proof (cases ok)
      case ok: True
      have "conn (s\<lparr>next_connect_deadline := 0, conn := Some c'\<rparr>) \<noteq> None" by simp
      from Cons.IH [OF this] Cons.prems(2) c w True ok show ?thesis by simp
    next
      case nok: False
      have n: "conn (teardown (t_write_fail env) c' (s\<lparr>next_connect_deadline := 0\<rparr>)) = None"
        by (simp add: teardown_def)
      from write_loop_no_conn [OF n, of env fds] c w True nok
      show ?thesis by (simp add: teardown_def)
    qed
  qed
qed

lemma read_loop_torn_down:
  assumes "conn s \<noteq> None" "conn (state_of (read_loop decode env fds s)) = None"
  shows "proc_stream_id (proc (state_of (read_loop decode env fds s))) = None \<and>
         next_connect_deadline (state_of (read_loop decode env fds s))
           = t_read_fail env + CONNECT_RETRY_INTERVAL"
  using assms
proof (induction fds arbitrary: s)
  case Nil
  then show ?case by simp
next
  case (Cons fd fds)
  from Cons.prems(1) obtain c where c: "conn s = Some c" by auto
  show ?case
  proof (cases "fd = wakeup_fd s \<or> fd \<noteq> fileno c")
    case True
    then have e: "read_loop decode env (fd # fds) s = read_loop decode env fds s"
      using c by auto
    from Cons.IH [OF Cons.prems(1)] Cons.prems(2) show ?thesis
      unfolding e by simp
  next
    case False
    then have f: "fd \<noteq> wakeup_fd s" "fd = fileno c" by auto
    show ?thesis
    proof (cases "Connection_read decode (recv_res env) (parsed env) c (proc s)")
      case None
      then show ?thesis using c f Cons.prems by simp
    next
      case (Some r)
      obtain ok c' p' where r: "r = (ok, c', p')" by (cases r)
      show ?thesis
      proof (cases ok)
        case ok: True
        have "conn (s\<lparr>conn := Some c', proc := p'\<rparr>) \<noteq> None" by simp
        from Cons.IH [OF this] Cons.prems(2) c f Some r ok show ?thesis by simp
      next
        case nok: False
        have n: "conn (teardown (t_read_fail env) c' (s\<lparr>proc := p'\<rparr>)) = None"
          by (simp add: teardown_def)
        from read_loop_no_conn [OF n, of decode env fds] c f Some r nok
        show ?thesis by (simp add: teardown_def)
      qed
    qed
  qed
qed

text \<open>
  C1: every step that takes a live connection down (the redirect of lines 217 to 224, a
  failed write, a failed read, the connect timeout) clears the stream id and sets the
  deadline to the clock reading of that step plus the retry interval, which is 2; a
  connection is made only when the clock is past the deadline; and in every run of the
  loop from its start, each attempt comes after the deadline that the last teardown
  before it armed.
\<close>

theorem C1_backoff_armed_and_respected:
  "CONNECT_RETRY_INTERVAL = 2 \<and>
   arms_backoff (t_redirect env) s (redirect_phase env s) \<and>
   arms_backoff (t_write_fail env) s (state_of (write_loop env wfds s)) \<and>
   arms_backoff (t_read_fail env) s (state_of (read_loop decode env rfds s)) \<and>
   arms_backoff (t_timeout_set env) s (timeout_phase env s) \<and>
   (conn s = None \<and> conn (state_of (connect_phase env s)) \<noteq> None \<longrightarrow>
      t_connect env > next_connect_deadline s) \<and>
   backoff_inv (state_of (run_loop decode steps (start_state p r)))"
proof -
  have w: "arms_backoff (t_write_fail env) s (state_of (write_loop env wfds s))"
    unfolding arms_backoff_def using write_loop_torn_down [of s env wfds] by blast
  have r: "arms_backoff (t_read_fail env) s (state_of (read_loop decode env rfds s))"
    unfolding arms_backoff_def using read_loop_torn_down [of s decode env rfds] by blast
  have c: "conn s = None \<and> conn (state_of (connect_phase env s)) \<noteq> None \<longrightarrow>
      t_connect env > next_connect_deadline s"
    by (auto simp: connect_phase_def Let_def split: option.splits sum.splits if_splits)
  have i: "backoff_inv (state_of (run_loop decode steps (start_state p r)))"
    by (rule backoff_inv_run_loop [OF backoff_inv_start])
  have k: "CONNECT_RETRY_INTERVAL = 2" by (simp add: CONNECT_RETRY_INTERVAL_def)
  from k arms_backoff_redirect [of env s] w r arms_backoff_timeout [of env s] c i
  show ?thesis by (intro conjI)
qed


theorem C1_backoff_armed_and_respected_witness:
  "conn retry_state \<noteq> None \<and>
   conn (timeout_phase (pass_at 1000 [3] [] (Sent 0) (Recv []) idle_view) retry_state) = None \<and>
   proc_stream_id
     (proc (timeout_phase (pass_at 1000 [3] [] (Sent 0) (Recv []) idle_view) retry_state)) = None \<and>
   next_connect_deadline
     (timeout_phase (pass_at 1000 [3] [] (Sent 0) (Recv []) idle_view) retry_state) = 1002 \<and>
   respects_deadlines 0
     (io_trace (state_of (run_loop json_loads
        [([], pass_at 100 [] [] (Sent 0) (Recv []) idle_view),
         ([], pass_at 101 [5] [] (Sent 0) (RecvError EPIPE) idle_view),
         ([], pass_at 104 [] [] (Sent 0) (Recv []) idle_view)]
        (start_state (Process_init (Some ''master1:5050'') (3, 4)) 3))))"
proof -
  have a: "conn retry_state \<noteq> None"
    by (simp add: retry_state_def)
  have b: "conn (timeout_phase (pass_at 1000 [3] [] (Sent 0) (Recv []) idle_view) retry_state) = None"
    by (simp add: retry_state_def timeout_phase_def pass_at_def teardown_def CONNECT_TIMEOUT_def)
  from a b C1_backoff_armed_and_respected
    [where env = "pass_at 1000 [3] [] (Sent 0) (Recv []) idle_view" and s = retry_state
       and decode = json_loads
       and steps = "[([], pass_at 100 [] [] (Sent 0) (Recv []) idle_view),
         ([], pass_at 101 [5] [] (Sent 0) (RecvError EPIPE) idle_view),
         ([], pass_at 104 [] [] (Sent 0) (Recv []) idle_view)]"
       and p = "Process_init (Some ''master1:5050'') (3, 4)" and r = 3]
  show ?thesis
    by (simp add: arms_backoff_def backoff_inv_def pass_at_def)
qed

subsection \<open>A failed write in a pass that also reads\<close>

text \<open>
  C4 says that no failure of the connection ends the worker, also in a pass where the
  socket is both writable and readable and the write fails first. In that pass the write
  loop sets \<^verbatim>\<open>conn = None\<close> (line 255), and line 264 then calls \<^verbatim>\<open>conn.fileno()\<close>
  without the test for \<open>None\<close> that line 273 has: the loop is left by
  \<^verbatim>\<open>AttributeError\<close>, the stop flag is set and the exception is handed to the main
  thread. Here for the first connection to \<open>master1:5050\<close>, whose peer resets it.
\<close>

theorem C4_write_failure_then_readable_raises:
  "map_option
     (\<lambda>out. case out of
        Raised e s \<Rightarrow> Some (e, stop (proc s), wakeup_fds (proc s), io_trace s)
      | _ \<Rightarrow> None)
     (Process_run json_loads
        [([], pass_at 100 [] [] (Sent 0) (Recv []) idle_view),
         ([], pass_at 101 [5] [5] (SendError EPIPE) (Recv []) idle_view)]
        (Process_init (Some ''master1:5050'') (3, 4)))
   = Some (Some (AttributeError, True, None,
                 [Attempt ''master1:5050'' 100, Close (''master1'', 5050) 101]))"
  by code_simp

subsection \<open>The connect timeout\<close>

text \<open>
  C5 as it is written: an attempt that does not validate its headers within the connect
  timeout is given up, also the very first attempt and also when the socket becomes writable
  first. The test of line 273 needs a deadline other than 0: the first attempt runs with
  the deadline 0 of line 207, and line 252 sets the deadline back to 0 when the socket is
  writable. In both runs below the connection is still there at clock 1000, with no
  stream id, and was never closed.
\<close>

theorem C5_no_timeout_on_first_or_writable_attempt:
  "map_option
     (\<lambda>out. case out of
        Continue s \<Rightarrow> Some (map_option stream_id (conn s), io_trace s)
      | _ \<Rightarrow> None)
     (Process_run json_loads
        [([], pass_at 100 [] [] (Sent 0) (Recv []) idle_view),
         ([], pass_at 1000 [3] [] (Sent 0) (Recv []) idle_view)]
        (Process_init (Some ''master1:5050'') (3, 4)))
   = Some (Some (Some None, [Attempt ''master1:5050'' 100]))
   \<and>
   map_option
     (\<lambda>out. case out of
        Continue s \<Rightarrow> Some (map_option stream_id (conn s), io_trace s)
      | _ \<Rightarrow> None)
     (Process_run json_loads
        [([], pass_at 100 [] [] (Sent 0) (Recv []) idle_view),
         ([], pass_at 101 [5] [] (Sent 0) (RecvError EPIPE) idle_view),
         ([], pass_at 104 [] [] (Sent 0) (Recv []) idle_view),
         ([], pass_at 105 [] [5] (Sent 22) (Recv []) idle_view),
         ([], pass_at 1000 [3] [] (Sent 0) (Recv []) idle_view)]
        (Process_init (Some ''master1:5050'') (3, 4)))
   = Some (Some (Some None,
                 [Attempt ''master1:5050'' 100, Close (''master1'', 5050) 101,
                  Attempt ''master1:5050'' 104]))"
  by code_simp

lemma read_loop_wakeup_only:
  "\<forall>fd \<in> set fds. fd = wakeup_fd s \<Longrightarrow> read_loop decode env fds s = Continue s"
  by (induction fds) simp_all

lemma select_ready_not_ready:
  "fd \<notin> set ready \<Longrightarrow> fd \<notin> set (select_ready fds ready)"
  by (simp add: select_ready_def)

lemma select_ready_subset:
  "set (select_ready fds ready) \<subseteq> fds"
  by (auto simp: select_ready_def)

lemma filter_eq_distinct:
  "distinct xs \<Longrightarrow> x \<in> set xs \<Longrightarrow> filter (\<lambda>y. y = x) xs = [x]"
proof (induction xs)
  case Nil
  then show ?case by simp
next
  case (Cons a xs)
  show ?case
  proof (cases "a = x")
    case True
    with Cons.prems have "x \<notin> set xs" by simp
    then have "filter (\<lambda>y. y = x) xs = []" by (auto simp: filter_empty_conv)
    with True show ?thesis by simp
  next
    case False
    with Cons show ?thesis by simp
  qed
qed

lemma quiet_write_set:
  assumes "conn s = Some c" "fileno c \<notin> set (ready_write env)"
  shows "select_ready (to_write s) (ready_write env) = []"
proof -
  have "set (select_ready (to_write s) (ready_write env)) \<subseteq> {fileno c}"
    using select_ready_subset [of "to_write s" "ready_write env"] assms(1)
    by (auto simp: to_write_def split: if_splits)
  with select_ready_not_ready [OF assms(2), of "to_write s"] show ?thesis
    by (cases "select_ready (to_write s) (ready_write env)") auto
qed

lemma quiet_read_set:
  assumes "conn s = Some c" "fileno c \<notin> set (ready_read env)"
  shows "\<forall>fd \<in> set (select_ready (to_read s) (ready_read env)). fd = wakeup_fd s"
proof
  fix fd assume fd: "fd \<in> set (select_ready (to_read s) (ready_read env))"
  with select_ready_subset [of "to_read s" "ready_read env"] assms(1)
  have "fd = wakeup_fd s \<or> fd = fileno c" by (auto simp: to_read_def)
  moreover from fd select_ready_not_ready [OF assms(2), of "to_read s"]
  have "fd \<noteq> fileno c" by auto
  ultimately show "fd = wakeup_fd s" by simp
qed

lemma quiet_iteration:
  assumes "\<not> stop (proc s)" "new_master (proc s) = master (proc s)" "conn s = Some c"
    and "fileno c \<notin> set (ready_write env)" "fileno c \<notin> set (ready_read env)"
  shows "iteration decode env s = Continue (timeout_phase env s)"
proof -
  have r: "redirect_phase env s = s" using assms(2) by (simp add: redirect_phase_def)
  have c: "connect_phase env s = Continue s"
    using assms(3) by (simp add: connect_phase_def split: option.splits)
  have w: "write_loop env (select_ready (to_write s) (ready_write env)) s = Continue s"
    by (simp add: quiet_write_set [OF assms(3,4)])
  have rd: "read_loop decode env (select_ready (to_read s) (ready_read env)) s = Continue s"
    by (rule read_loop_wakeup_only) (rule quiet_read_set [OF assms(3,5)])
  show ?thesis using assms(1) by (simp add: iteration_def r c w rd)
qed

lemma writable_iteration:
  assumes "\<not> stop (proc s)" "new_master (proc s) = master (proc s)" "conn s = Some c"
    and "want_write c" "fileno c \<in> set (ready_write env)" "fileno c \<notin> set (ready_read env)"
    and "Connection_write (send_res env) c = (True, c')"
  shows "iteration decode env s = Continue (s\<lparr>next_connect_deadline := 0, conn := Some c'\<rparr>)"
proof -
  let ?s' = "s\<lparr>next_connect_deadline := 0, conn := Some c'\<rparr>"
  have r: "redirect_phase env s = s" using assms(2) by (simp add: redirect_phase_def)
  have c: "connect_phase env s = Continue s"
    using assms(3) by (simp add: connect_phase_def split: option.splits)
  have sel: "select_ready (to_write s) (ready_write env) = [fileno c]"
  proof -
    have "filter (\<lambda>fd. fd = fileno c) (remdups (ready_write env)) = [fileno c]"
      using assms(5) by (simp add: filter_eq_distinct)
    then show ?thesis using assms(3,4) by (simp add: select_ready_def to_write_def)
  qed
  have w: "write_loop env (select_ready (to_write s) (ready_write env)) s = Continue ?s'"
    using assms(3,7) by (simp add: sel)
  have "\<forall>fd \<in> set (select_ready (to_read s) (ready_read env)). fd = wakeup_fd ?s'"
    using quiet_read_set [OF assms(3,6)] by simp
  then have rd: "read_loop decode env (select_ready (to_read s) (ready_read env)) ?s' = Continue ?s'"
    by (rule read_loop_wakeup_only)
  have t: "timeout_phase env ?s' = ?s'" by (simp add: timeout_phase_def)
  show ?thesis using assms(1) by (simp add: iteration_def r c w rd t)
qed

text \<open>
  C5 as the loop does it. In a pass without redirect where the live connection is not
  readable: when it is not writable either, the deadline \<open>d\<close> is not 0 and the clock is
  past \<open>d\<close> plus the connect timeout (2), the connection is closed, the stream id is
  cleared and the deadline becomes the clock plus the retry interval (2); with the
  deadline 0 the pass changes nothing; and a successful write in the pass sets the
  deadline to 0, which ends the timeout for that connection.
\<close>

theorem C5_connect_timeout_from_armed_deadline:
  assumes "\<not> stop (proc s)" and "new_master (proc s) = master (proc s)"
    and "conn s = Some c" and "fileno c \<notin> set (ready_read env)"
  shows "CONNECT_TIMEOUT = 2 \<and> CONNECT_RETRY_INTERVAL = 2 \<and>
     (fileno c \<notin> set (ready_write env) \<and> next_connect_deadline s \<noteq> 0 \<and>
      t_timeout_check env > next_connect_deadline s + CONNECT_TIMEOUT \<longrightarrow>
        (\<exists>s'. iteration decode env s = Continue s' \<and> conn s' = None \<and>
              proc_stream_id (proc s') = None \<and>
              next_connect_deadline s' = t_timeout_set env + CONNECT_RETRY_INTERVAL \<and>
              io_trace s' = io_trace s @ [Close (addr c) (t_timeout_set env)])) \<and>
     (fileno c \<notin> set (ready_write env) \<and> next_connect_deadline s = 0 \<longrightarrow>
        iteration decode env s = Continue s) \<and>
     (\<forall>c'. want_write c \<and> fileno c \<in> set (ready_write env) \<and>
           Connection_write (send_res env) c = (True, c') \<longrightarrow>
        iteration decode env s = Continue (s\<lparr>next_connect_deadline := 0, conn := Some c'\<rparr>))"
proof -
  have k: "CONNECT_TIMEOUT = 2" "CONNECT_RETRY_INTERVAL = 2"
    by (simp_all add: CONNECT_TIMEOUT_def CONNECT_RETRY_INTERVAL_def)
  have fire: "\<exists>s'. iteration decode env s = Continue s' \<and> conn s' = None \<and>
              proc_stream_id (proc s') = None \<and>
              next_connect_deadline s' = t_timeout_set env + CONNECT_RETRY_INTERVAL \<and>
              io_trace s' = io_trace s @ [Close (addr c) (t_timeout_set env)]"
    if "fileno c \<notin> set (ready_write env)" "next_connect_deadline s \<noteq> 0"
      "t_timeout_check env > next_connect_deadline s + CONNECT_TIMEOUT"
  proof -
    have "iteration decode env s = Continue (teardown (t_timeout_set env) c s)"
      using quiet_iteration [OF assms(1,2,3) that(1) assms(4), of decode] that(2,3) assms(3)
      by (simp add: timeout_phase_def)
    then show ?thesis by (simp add: teardown_def)
  qed
  have quiet: "iteration decode env s = Continue s"
    if "fileno c \<notin> set (ready_write env)" "next_connect_deadline s = 0"
    using quiet_iteration [OF assms(1,2,3) that(1) assms(4), of decode] that(2) assms(3)
    by (simp add: timeout_phase_def)
  have wr: "iteration decode env s = Continue (s\<lparr>next_connect_deadline := 0, conn := Some c'\<rparr>)"
    if "want_write c" "fileno c \<in> set (ready_write env)"
      "Connection_write (send_res env) c = (True, c')" for c'
    using writable_iteration [OF assms(1,2,3) that(1,2) assms(4) that(3)] .
  from k fire quiet wr show ?thesis by blast
qed

theorem C5_connect_timeout_from_armed_deadline_witness:
  "conn retry_state \<noteq> None \<and> next_connect_deadline retry_state = 103 \<and>
   conn (state_of (iteration json_loads
           (pass_at 1000 [3] [] (Sent 0) (Recv []) idle_view) retry_state)) = None \<and>
   proc_stream_id (proc (state_of (iteration json_loads
           (pass_at 1000 [3] [] (Sent 0) (Recv []) idle_view) retry_state))) = None \<and>
   next_connect_deadline (state_of (iteration json_loads
           (pass_at 1000 [3] [] (Sent 0) (Recv []) idle_view) retry_state)) = 1002"
proof -
  have h: "\<not> stop (proc retry_state)" "new_master (proc retry_state) = master (proc retry_state)"
    "conn retry_state = Some (example_connection\<lparr>request := ''POST /api/v1/scheduler''\<rparr>)"
    "fileno (example_connection\<lparr>request := ''POST /api/v1/scheduler''\<rparr>)
       \<notin> set (ready_read (pass_at 1000 [3] [] (Sent 0) (Recv []) idle_view))"
    by (simp_all add: retry_state_def example_process_def Process_init_def pass_at_def
          fileno_def example_connection_def)
  from C5_connect_timeout_from_armed_deadline [OF h, of json_loads]
  obtain s' where "iteration json_loads (pass_at 1000 [3] [] (Sent 0) (Recv []) idle_view)
      retry_state = Continue s'"
    and "conn s' = None" and "proc_stream_id (proc s') = None"
    and "next_connect_deadline s' = 1002"
    by (auto simp: retry_state_def pass_at_def fileno_def example_connection_def
          CONNECT_TIMEOUT_def CONNECT_RETRY_INTERVAL_def)
  then show ?thesis by (simp add: retry_state_def)
qed

subsection \<open>Two redirects before one pass\<close>

lemma before_first_attempt_snoc_Attempt:
  "before_first_attempt (tr @ [Attempt m t]) = before_first_attempt tr"
  by (induction tr) (simp_all add: before_first_attempt_def)

lemma before_first_attempt_snoc_Close:
  "before_first_attempt (tr @ [Close b t]) =
     (if \<exists>ev \<in> set tr. is_Attempt ev then before_first_attempt tr else tr @ [Close b t])"
  by (induction tr) (simp_all add: before_first_attempt_def)

lemma superseded_invD:
  assumes "superseded_inv e a n s"
  shows "new_master (proc s) \<noteq> Some e"
    and "n \<le> length (io_trace s)"
    and "\<forall>ev \<in> set (drop n (io_trace s)). \<not> attempt_to e ev"
    and "before_first_attempt (drop n (io_trace s)) = [] \<or>
         (\<exists>t. before_first_attempt (drop n (io_trace s)) = [Close a t])"
    and "(\<forall>ev \<in> set (drop n (io_trace s)). \<not> is_Attempt ev) \<longrightarrow>
         (case conn s of None \<Rightarrow> True | Some c \<Rightarrow> drop n (io_trace s) = [] \<and> addr c = a)"
  using assms unfolding superseded_inv_def by blast+

lemma superseded_invI:
  assumes "new_master (proc s) \<noteq> Some e"
    and "n \<le> length (io_trace s)"
    and "\<forall>ev \<in> set (drop n (io_trace s)). \<not> attempt_to e ev"
    and "before_first_attempt (drop n (io_trace s)) = [] \<or>
         (\<exists>t. before_first_attempt (drop n (io_trace s)) = [Close a t])"
    and "(\<forall>ev \<in> set (drop n (io_trace s)). \<not> is_Attempt ev) \<longrightarrow>
         (case conn s of None \<Rightarrow> True | Some c \<Rightarrow> drop n (io_trace s) = [] \<and> addr c = a)"
  shows "superseded_inv e a n s"
  using assms unfolding superseded_inv_def by blast

lemma superseded_inv_eq:
  assumes "new_master (proc s') = new_master (proc s)" "io_trace s' = io_trace s"
    and "case conn s' of None \<Rightarrow> True
         | Some c' \<Rightarrow> (case conn s of None \<Rightarrow> False | Some c \<Rightarrow> addr c' = addr c)"
    and "superseded_inv e a n s"
  shows "superseded_inv e a n s'"
proof (rule superseded_invI)
  note d = superseded_invD [OF assms(4)]
  show "new_master (proc s') \<noteq> Some e" using d(1) assms(1) by simp
  show "n \<le> length (io_trace s')" using d(2) assms(2) by simp
  show "\<forall>ev \<in> set (drop n (io_trace s')). \<not> attempt_to e ev"
    using d(3) unfolding assms(2) .
  show "before_first_attempt (drop n (io_trace s')) = [] \<or>
         (\<exists>t. before_first_attempt (drop n (io_trace s')) = [Close a t])"
    using d(4) unfolding assms(2) .
  show "(\<forall>ev \<in> set (drop n (io_trace s')). \<not> is_Attempt ev) \<longrightarrow>
         (case conn s' of None \<Rightarrow> True | Some c \<Rightarrow> drop n (io_trace s') = [] \<and> addr c = a)"
    unfolding assms(2)
  proof
    assume na: "\<forall>ev \<in> set (drop n (io_trace s)). \<not> is_Attempt ev"
    show "case conn s' of None \<Rightarrow> True | Some c \<Rightarrow> drop n (io_trace s) = [] \<and> addr c = a"
    proof (cases "conn s'")
      case None
      then show ?thesis by simp
    next
      case (Some c')
      with assms(3) obtain c where c: "conn s = Some c" "addr c' = addr c"
        by (cases "conn s") auto
      from d(5) na c have "drop n (io_trace s) = [] \<and> addr c = a" by simp
      with Some c show ?thesis by simp
    qed
  qed
qed

lemma superseded_inv_teardown:
  assumes "superseded_inv e a n s" "conn s = Some c0" "addr c = addr c0"
  shows "superseded_inv e a n (teardown t c s)"
proof (rule superseded_invI)
  note d = superseded_invD [OF assms(1)]
  have dr: "drop n (io_trace (teardown t c s)) = drop n (io_trace s) @ [Close (addr c) t]"
    using d(2) by (simp add: teardown_def)
  show "new_master (proc (teardown t c s)) \<noteq> Some e"
    using d(1) by (simp add: teardown_def)
  show "n \<le> length (io_trace (teardown t c s))"
    using d(2) by (simp add: teardown_def)
  show "\<forall>ev \<in> set (drop n (io_trace (teardown t c s))). \<not> attempt_to e ev"
    unfolding dr using d(3) by simp
  show "before_first_attempt (drop n (io_trace (teardown t c s))) = [] \<or>
         (\<exists>t'. before_first_attempt (drop n (io_trace (teardown t c s))) = [Close a t'])"
  proof (cases "\<exists>ev \<in> set (drop n (io_trace s)). is_Attempt ev")
    case True
    then have "before_first_attempt (drop n (io_trace (teardown t c s)))
        = before_first_attempt (drop n (io_trace s))"
      unfolding dr by (simp only: before_first_attempt_snoc_Close if_True)
    with d(4) show ?thesis by simp
  next
    case False
    with d(5) assms(2,3) have "drop n (io_trace s) = []" "addr c = a" by simp_all
    then have "before_first_attempt (drop n (io_trace (teardown t c s))) = [Close a t]"
      unfolding dr by (simp add: before_first_attempt_def)
    then show ?thesis by blast
  qed
  have "conn (teardown t c s) = None" by (simp add: teardown_def)
  then show "(\<forall>ev \<in> set (drop n (io_trace (teardown t c s))). \<not> is_Attempt ev) \<longrightarrow>
         (case conn (teardown t c s) of None \<Rightarrow> True
          | Some c' \<Rightarrow> drop n (io_trace (teardown t c s)) = [] \<and> addr c' = a)"
    by simp
qed

lemma superseded_inv_attempt:
  assumes "superseded_inv e a n s" "m \<noteq> e"
    and "io_trace s' = io_trace s @ [Attempt m t]" "new_master (proc s') = new_master (proc s)"
  shows "superseded_inv e a n s'"
proof (rule superseded_invI)
  note d = superseded_invD [OF assms(1)]
  have dr: "drop n (io_trace s') = drop n (io_trace s) @ [Attempt m t]"
    using d(2) by (simp add: assms(3))
  show "new_master (proc s') \<noteq> Some e" using d(1) assms(4) by simp
  show "n \<le> length (io_trace s')" using d(2) by (simp add: assms(3))
  show "\<forall>ev \<in> set (drop n (io_trace s')). \<not> attempt_to e ev"
    unfolding dr using d(3) assms(2) by simp
  show "before_first_attempt (drop n (io_trace s')) = [] \<or>
         (\<exists>t'. before_first_attempt (drop n (io_trace s')) = [Close a t'])"
    unfolding dr before_first_attempt_snoc_Attempt using d(4) .
  have "\<exists>ev \<in> set (drop n (io_trace s')). is_Attempt ev"
    unfolding dr by simp
  then show "(\<forall>ev \<in> set (drop n (io_trace s')). \<not> is_Attempt ev) \<longrightarrow>
         (case conn s' of None \<Rightarrow> True | Some c' \<Rightarrow> drop n (io_trace s') = [] \<and> addr c' = a)"
    by blast
qed

lemma superseded_inv_redirect:
  assumes "superseded_inv e a n s"
  shows "superseded_inv e a n (redirect_phase env s) \<and>
         master (proc (redirect_phase env s)) \<noteq> Some e"
proof (cases "new_master (proc s) = master (proc s)")
  case True
  with assms show ?thesis by (simp add: redirect_phase_def superseded_inv_def)
next
  case False
  from assms have nm: "new_master (proc s) \<noteq> Some e" by (simp add: superseded_inv_def)
  show ?thesis
  proof (cases "conn s")
    case None
    have "superseded_inv e a n (s\<lparr>proc := (proc s)\<lparr>master := new_master (proc s)\<rparr>\<rparr>)"
      by (rule superseded_inv_eq [OF _ _ _ assms]) (simp_all add: None)
    with False None nm show ?thesis by (simp add: redirect_phase_def)
  next
    case (Some c)
    let ?s1 = "teardown (t_redirect env) c s"
    have i1: "superseded_inv e a n ?s1"
      by (rule superseded_inv_teardown [OF assms Some]) simp
    have "superseded_inv e a n (?s1\<lparr>proc := (proc ?s1)\<lparr>master := new_master (proc ?s1)\<rparr>\<rparr>)"
      by (rule superseded_inv_eq [OF _ _ _ i1]) (simp_all add: teardown_def)
    with False Some nm show ?thesis by (simp add: redirect_phase_def teardown_def)
  qed
qed

lemma superseded_inv_connect:
  assumes "superseded_inv e a n s" "master (proc s) \<noteq> Some e"
  shows "superseded_inv e a n (state_of (connect_phase env s))"
proof (cases "master (proc s)")
  case None
  with assms show ?thesis by (simp add: connect_phase_def)
next
  case (Some m)
  with assms(2) have m: "m \<noteq> e" by simp
  show ?thesis
  proof (cases "conn s = None \<and> t_connect env > next_connect_deadline s")
    case False
    with Some assms(1) show ?thesis by (auto simp: connect_phase_def)
  next
    case True
    show ?thesis
    proof (cases "Connection_init (new_fd env) (connect_error env) (gen_request env) m")
      case (Inl x)
      have "superseded_inv e a n (s\<lparr>io_trace := io_trace s @ [Attempt m (t_connect env)]\<rparr>)"
        by (rule superseded_inv_attempt [OF assms(1) m]) simp_all
      with Some True Inl show ?thesis by (simp add: connect_phase_def)
    next
      case (Inr c)
      have "superseded_inv e a n
          (s\<lparr>io_trace := io_trace s @ [Attempt m (t_connect env)], conn := Some c\<rparr>)"
        by (rule superseded_inv_attempt [OF assms(1) m]) simp_all
      with Some True Inr show ?thesis by (simp add: connect_phase_def)
    qed
  qed
qed

lemma Connection_write_addr:
  "Connection_write sr c = (ok, c') \<Longrightarrow> addr c' = addr c"
  by (auto simp: Connection_write_def split: send_result.splits if_splits)

lemma Connection_read_frame:
  assumes "Connection_read decode rr pv c p = Some (ok, c', p')"
  shows "addr c' = addr c \<and> new_master p' = new_master p"
  using assms
  by (auto simp: Connection_read_def check_headers_def Let_def
           split: recv_result.splits if_splits option.splits prod.splits)

lemma superseded_inv_write_loop:
  "superseded_inv e a n s \<Longrightarrow> superseded_inv e a n (state_of (write_loop env fds s))"
proof (induction fds arbitrary: s)
  case Nil
  then show ?case by simp
next
  case (Cons fd fds)
  show ?case
  proof (cases "conn s")
    case None
    then show ?thesis using Cons.prems by simp
  next
    case (Some c)
    obtain ok c' where w: "Connection_write (send_res env) c = (ok, c')"
      by (cases "Connection_write (send_res env) c")
    note ad = Connection_write_addr [OF w]
    have a: "superseded_inv e a n (s\<lparr>next_connect_deadline := 0, conn := Some c'\<rparr>)"
      by (rule superseded_inv_eq [OF _ _ _ Cons.prems]) (simp_all add: Some ad)
    have z: "superseded_inv e a n (s\<lparr>next_connect_deadline := 0\<rparr>)"
      by (rule superseded_inv_eq [OF _ _ _ Cons.prems]) (simp_all add: Some)
    have b: "superseded_inv e a n (teardown (t_write_fail env) c' (s\<lparr>next_connect_deadline := 0\<rparr>))"
      by (rule superseded_inv_teardown [OF z, of c]) (simp_all add: Some ad)
    show ?thesis
      using Some w Cons.prems Cons.IH [OF a] Cons.IH [OF b]
      by (cases ok) simp_all
  qed
qed

lemma superseded_inv_read_loop:
  "superseded_inv e a n s \<Longrightarrow> superseded_inv e a n (state_of (read_loop decode env fds s))"
proof (induction fds arbitrary: s)
  case Nil
  then show ?case by simp
next
  case (Cons fd fds)
  show ?case
  proof (cases "fd = wakeup_fd s")
    case True
    then show ?thesis using Cons by simp
  next
    case nw: False
    show ?thesis
    proof (cases "conn s")
      case None
      then show ?thesis using Cons.prems nw by simp
    next
      case (Some c)
      show ?thesis
      proof (cases "fd = fileno c")
        case False
        then show ?thesis using Cons nw Some by simp
      next
        case True
        show ?thesis
        proof (cases "Connection_read decode (recv_res env) (parsed env) c (proc s)")
          case None
          then show ?thesis using Cons.prems nw Some True by simp
        next
          case (Some r)
          obtain ok c' p' where r: "r = (ok, c', p')" by (cases r)
          from Some r have "Connection_read decode (recv_res env) (parsed env) c (proc s)
              = Some (ok, c', p')" by simp
          note fr = Connection_read_frame [OF this]
          have a: "superseded_inv e a n (s\<lparr>conn := Some c', proc := p'\<rparr>)"
            by (rule superseded_inv_eq [OF _ _ _ Cons.prems]) (simp_all add: \<open>conn s = Some c\<close> fr)
          have z: "superseded_inv e a n (s\<lparr>proc := p'\<rparr>)"
            by (rule superseded_inv_eq [OF _ _ _ Cons.prems]) (simp_all add: \<open>conn s = Some c\<close> fr)
          have b: "superseded_inv e a n (teardown (t_read_fail env) c' (s\<lparr>proc := p'\<rparr>))"
            by (rule superseded_inv_teardown [OF z, of c]) (simp_all add: \<open>conn s = Some c\<close> fr)
          show ?thesis
            using \<open>conn s = Some c\<close> Some r nw True Cons.IH [OF a] Cons.IH [OF b]
            by (cases ok) simp_all
        qed
      qed
    qed
  qed
qed

lemma superseded_inv_timeout:
  assumes "superseded_inv e a n s"
  shows "superseded_inv e a n (timeout_phase env s)"
proof (cases "conn s")
  case None
  then have "timeout_phase env s = s" by (simp add: timeout_phase_def)
  with assms show ?thesis by simp
next
  case (Some c)
  show ?thesis
  proof (cases "next_connect_deadline s \<noteq> 0 \<and>
      t_timeout_check env > next_connect_deadline s + CONNECT_TIMEOUT")
    case True
    with Some have "timeout_phase env s = teardown (t_timeout_set env) c s"
      by (simp add: timeout_phase_def)
    with superseded_inv_teardown [OF assms Some refl, of "t_timeout_set env"]
    show ?thesis by simp
  next
    case False
    with Some have "timeout_phase env s = s" by (auto simp: timeout_phase_def)
    with assms show ?thesis by simp
  qed
qed

lemma fold_apply_ctl_new_master:
  "ChangeMaster (Some e) \<notin> set cs \<Longrightarrow> new_master p \<noteq> Some e \<Longrightarrow>
   new_master (fold apply_ctl cs p) \<noteq> Some e"
proof (induction cs arbitrary: p)
  case Nil
  then show ?case by simp
next
  case (Cons c cs)
  from Cons.prems(1) have nc: "ChangeMaster (Some e) \<notin> set cs"
    and ne: "c \<noteq> ChangeMaster (Some e)" by auto
  have "new_master (apply_ctl c p) \<noteq> Some e"
  proof (cases c)
    case (ChangeMaster nm)
    with ne have "nm \<noteq> Some e" by simp
    then show ?thesis using ChangeMaster by (simp add: change_master_def)
  next
    case StopRequest
    then show ?thesis using Cons.prems(2) by (simp add: Process_stop_def)
  qed
  from Cons.IH [OF nc this] show ?case by simp
qed

lemma superseded_inv_controller:
  assumes "superseded_inv e a n s" "ChangeMaster (Some e) \<notin> set cs"
  shows "superseded_inv e a n (controller_calls cs s)"
proof (rule superseded_invI)
  note d = superseded_invD [OF assms(1)]
  have tr: "io_trace (controller_calls cs s) = io_trace s"
    and cn: "conn (controller_calls cs s) = conn s"
    by (simp_all add: controller_calls_def)
  from fold_apply_ctl_new_master [OF assms(2) d(1)]
  show "new_master (proc (controller_calls cs s)) \<noteq> Some e"
    by (simp add: controller_calls_def)
  show "n \<le> length (io_trace (controller_calls cs s))"
    unfolding tr by (rule d(2))
  show "\<forall>ev \<in> set (drop n (io_trace (controller_calls cs s))). \<not> attempt_to e ev"
    unfolding tr by (rule d(3))
  show "before_first_attempt (drop n (io_trace (controller_calls cs s))) = [] \<or>
         (\<exists>t. before_first_attempt (drop n (io_trace (controller_calls cs s))) = [Close a t])"
    unfolding tr by (rule d(4))
  show "(\<forall>ev \<in> set (drop n (io_trace (controller_calls cs s))). \<not> is_Attempt ev) \<longrightarrow>
         (case conn (controller_calls cs s) of None \<Rightarrow> True
          | Some c \<Rightarrow> drop n (io_trace (controller_calls cs s)) = [] \<and> addr c = a)"
    unfolding tr cn by (rule d(5))
qed

lemma superseded_inv_iteration:
  assumes "superseded_inv e a n s"
  shows "superseded_inv e a n (state_of (iteration decode env s))"
proof (cases "stop (proc s)")
  case True
  then show ?thesis using assms by (simp add: iteration_def)
next
  case False
  note rd = superseded_inv_redirect [OF assms, of env]
  have "superseded_inv e a n (state_of
      (and_then (connect_phase env (redirect_phase env s)) (\<lambda>s2.
        and_then (write_loop env (select_ready (to_write s2) (ready_write env)) s2) (\<lambda>s3.
        and_then (read_loop decode env (select_ready (to_read s2) (ready_read env)) s3) (\<lambda>s4.
        Continue (timeout_phase env s4))))))"
  proof (rule state_of_and_then [where P = "superseded_inv e a n"])
    show c: "superseded_inv e a n (state_of (connect_phase env (redirect_phase env s)))"
      using rd by (simp add: superseded_inv_connect)
    fix s2 assume s2: "connect_phase env (redirect_phase env s) = Continue s2"
    with c have i2: "superseded_inv e a n s2" by simp
    show "superseded_inv e a n (state_of
        (and_then (write_loop env (select_ready (to_write s2) (ready_write env)) s2) (\<lambda>s3.
        and_then (read_loop decode env (select_ready (to_read s2) (ready_read env)) s3) (\<lambda>s4.
        Continue (timeout_phase env s4)))))"
    proof (rule state_of_and_then [where P = "superseded_inv e a n"])
      show w: "superseded_inv e a n
          (state_of (write_loop env (select_ready (to_write s2) (ready_write env)) s2))"
        by (rule superseded_inv_write_loop [OF i2])
      fix s3 assume "write_loop env (select_ready (to_write s2) (ready_write env)) s2 = Continue s3"
      with w have i3: "superseded_inv e a n s3" by simp
      show "superseded_inv e a n (state_of
        (and_then (read_loop decode env (select_ready (to_read s2) (ready_read env)) s3) (\<lambda>s4.
        Continue (timeout_phase env s4))))"
      proof (rule state_of_and_then [where P = "superseded_inv e a n"])
        show r: "superseded_inv e a n
            (state_of (read_loop decode env (select_ready (to_read s2) (ready_read env)) s3))"
          by (rule superseded_inv_read_loop [OF i3])
        fix s4 assume "read_loop decode env (select_ready (to_read s2) (ready_read env)) s3 = Continue s4"
        with r have "superseded_inv e a n s4" by simp
        then show "superseded_inv e a n (state_of (Continue (timeout_phase env s4)))"
          by (simp add: superseded_inv_timeout)
      qed
    qed
  qed
  with False show ?thesis by (simp add: iteration_def)
qed

lemma superseded_inv_run_loop:
  assumes "superseded_inv e a n s" "\<forall>step \<in> set steps. ChangeMaster (Some e) \<notin> set (fst step)"
  shows "superseded_inv e a n (state_of (run_loop decode steps s))"
  using assms
proof (induction steps arbitrary: s)
  case Nil
  then show ?case by simp
next
  case (Cons st steps)
  obtain cs env where st: "st = (cs, env)" by (cases st)
  from Cons.prems(2) st have cs: "ChangeMaster (Some e) \<notin> set cs"
    and rest: "\<forall>step \<in> set steps. ChangeMaster (Some e) \<notin> set (fst step)" by auto
  have i: "superseded_inv e a n (state_of (iteration decode env (controller_calls cs s)))"
    by (rule superseded_inv_iteration) (rule superseded_inv_controller [OF Cons.prems(1) cs])
  show ?case
    unfolding st run_loop.simps
    by (rule state_of_and_then [where P = "superseded_inv e a n", OF i])
       (use i Cons.IH rest in simp)
qed

text \<open>
  C8: the controller calls \<open>change_master\<close> with \<open>e1\<close> and then with \<open>e2\<close> while a
  connection \<open>c\<close> is live, before the loop makes its next pass, and does not ask for
  \<open>e1\<close> again. Then in every run of the loop no connection to \<open>e1\<close> is ever
  attempted, and before the first new attempt the loop closes nothing but \<open>c\<close>, at
  most once.
\<close>

theorem C8_first_redirect_superseded:
  assumes "conn s = Some c" and "e2 \<noteq> Some e1"
    and "\<forall>step \<in> set steps. ChangeMaster (Some e1) \<notin> set (fst step)"
  shows "(\<forall>ev \<in> set (drop (length (io_trace s)) (io_trace (state_of (run_loop decode steps
            (s\<lparr>proc := change_master e2 (change_master (Some e1) (proc s))\<rparr>))))).
            \<not> attempt_to e1 ev) \<and>
         (before_first_attempt (drop (length (io_trace s)) (io_trace (state_of (run_loop decode
            steps (s\<lparr>proc := change_master e2 (change_master (Some e1) (proc s))\<rparr>))))) = [] \<or>
          (\<exists>t. before_first_attempt (drop (length (io_trace s)) (io_trace (state_of (run_loop
            decode steps (s\<lparr>proc := change_master e2 (change_master (Some e1) (proc s))\<rparr>)))))
            = [Close (addr c) t]))"
proof -
  let ?s2 = "s\<lparr>proc := change_master e2 (change_master (Some e1) (proc s))\<rparr>"
  have "superseded_inv e1 (addr c) (length (io_trace s)) ?s2"
    by (rule superseded_invI)
       (use assms(1,2) in \<open>simp_all add: change_master_def before_first_attempt_def\<close>)
  from superseded_inv_run_loop [OF this assms(3), of decode]
  have i: "superseded_inv e1 (addr c) (length (io_trace s)) (state_of (run_loop decode steps ?s2))" .
  from superseded_invD(3) [OF i] superseded_invD(4) [OF i]
  show ?thesis by (rule conjI)
qed


theorem C8_first_redirect_superseded_witness:
  "conn connected_state = Some established_connection \<and>
   filter (attempt_to ''master2:5050'')
     (drop (length (io_trace connected_state))
        (io_trace (state_of (run_loop json_loads
           [([], pass_at 200 [3] [] (Sent 0) (Recv []) idle_view),
            ([], pass_at 203 [3] [] (Sent 0) (Recv []) idle_view)]
           (connected_state\<lparr>proc := change_master (Some ''master3:5050'')
              (change_master (Some ''master2:5050'') (proc connected_state))\<rparr>))))) = [] \<and>
   drop (length (io_trace connected_state))
        (io_trace (state_of (run_loop json_loads
           [([], pass_at 200 [3] [] (Sent 0) (Recv []) idle_view),
            ([], pass_at 203 [3] [] (Sent 0) (Recv []) idle_view)]
           (connected_state\<lparr>proc := change_master (Some ''master3:5050'')
              (change_master (Some ''master2:5050'') (proc connected_state))\<rparr>))))
     = [Close (''master1'', 5050) 200, Attempt ''master3:5050'' 203]"
proof -
  have h1: "conn connected_state = Some established_connection"
    by (simp add: connected_state_def)
  have h2: "Some ''master3:5050'' \<noteq> Some ''master2:5050''"
    by simp
  have h3: "\<forall>step \<in> set [([], pass_at 200 [3] [] (Sent 0) (Recv []) idle_view),
            ([], pass_at 203 [3] [] (Sent 0) (Recv []) idle_view)].
       ChangeMaster (Some ''master2:5050'') \<notin> set (fst step)"
    by simp
  have ev: "drop (length (io_trace connected_state))
        (io_trace (state_of (run_loop json_loads
           [([], pass_at 200 [3] [] (Sent 0) (Recv []) idle_view),
            ([], pass_at 203 [3] [] (Sent 0) (Recv []) idle_view)]
           (connected_state\<lparr>proc := change_master (Some ''master3:5050'')
              (change_master (Some ''master2:5050'') (proc connected_state))\<rparr>))))
     = [Close (''master1'', 5050) 200, Attempt ''master3:5050'' 203]"
    by code_simp
  note t = C8_first_redirect_superseded [OF h1 h2 h3, of json_loads]
  from conjunct1 [OF t]
  have f: "filter (attempt_to ''master2:5050'')
     (drop (length (io_trace connected_state))
        (io_trace (state_of (run_loop json_loads
           [([], pass_at 200 [3] [] (Sent 0) (Recv []) idle_view),
            ([], pass_at 203 [3] [] (Sent 0) (Recv []) idle_view)]
           (connected_state\<lparr>proc := change_master (Some ''master3:5050'')
              (change_master (Some ''master2:5050'') (proc connected_state))\<rparr>))))) = []"
    unfolding filter_empty_conv .
  from h1 f ev show ?thesis by (intro conjI)
qed

end
